theory Spec2Isabelle
  imports Main "HOL-Library.Word"
begin

section \<open>The inverted index of cache-search.c\<close>

text \<open>
  A C string is modelled by the list of its bytes before the terminating NUL, so
  \<open>strcmp(a, b) == 0\<close> is equality of lists and \<open>!*s\<close> is \<open>s = []\<close>. A pointer that the
  source tests against \<open>NULL\<close> is an \<open>option\<close>. A \<open>FileNode *\<close> is the list of the names
  reachable from it (\<open>NULL\<close> is \<open>[]\<close>): a node is never written after
  \<open>add_file_to_list\<close> has linked it, so the list a pointer denotes never changes, and a
  copy of the pointer (as the cache keeps) denotes the same list for ever.
\<close>

subsection \<open>Data\<close>

record WordEntry =
  entry_word :: string
  entry_files :: "string list"

text \<open>
  \<open>hash_table\<close> is the array of bucket heads: index to chain (the \<open>next\<close> links of
  \<open>WordEntry\<close> are the list). Only indices below \<open>HASH_SIZE\<close> exist in the C array.
\<close>

type_synonym table = "nat \<Rightarrow> WordEntry list"

definition HASH_SIZE :: nat where
  "HASH_SIZE = 10007"

definition empty_table :: table where
  "empty_table = (\<lambda>i. [])"

text \<open>
  The outcomes of the successive \<open>malloc\<close> calls: \<open>True\<close> for a block, \<open>False\<close> for
  \<open>NULL\<close>. Once the list is used up every later call succeeds.
\<close>

type_synonym heap = "bool list"

fun malloc :: "heap \<Rightarrow> bool \<times> heap" where
  "malloc [] = (True, [])"
| "malloc (b # bs) = (b, bs)"

subsection \<open>hash_str\<close>

text \<open>\<open>unsigned long\<close> is 64 bits wide (LP64); \<open>(h << 5) + h\<close> wraps.\<close>

fun hash_loop :: "64 word \<Rightarrow> string \<Rightarrow> 64 word" where
  "hash_loop h [] = h"
| "hash_loop h (c # s) = hash_loop ((push_bit 5 h + h) + of_nat (of_char c)) s"

definition hash_str :: "string \<Rightarrow> 64 word" where
  "hash_str s = hash_loop 5381 s mod 10007"

subsection \<open>Document lists\<close>

fun filelist_contains :: "string list \<Rightarrow> string \<Rightarrow> bool" where
  "filelist_contains [] filename = False"
| "filelist_contains (p # ps) filename =
     (if p = filename then True else filelist_contains ps filename)"

text \<open>
  \<open>add_file_to_list\<close> writes through \<open>e\<close>; the model returns the entry as it is
  afterwards. Two blocks are allocated, the node and its name.
\<close>

fun add_file_to_list :: "WordEntry option \<Rightarrow> string \<Rightarrow> heap \<Rightarrow> WordEntry option \<times> heap" where
  "add_file_to_list None filename h = (None, h)"
| "add_file_to_list (Some e) filename h =
     (if filelist_contains (entry_files e) filename then (Some e, h)
      else case malloc h of
        (False, h1) \<Rightarrow> (Some e, h1)
      | (True, h1) \<Rightarrow>
          (case malloc h1 of
             (False, h2) \<Rightarrow> (Some e, h2)
           | (True, h2) \<Rightarrow> (Some (e\<lparr>entry_files := filename # entry_files e\<rparr>), h2)))"

subsection \<open>find_word_entry and insert_word\<close>

fun find_chain :: "WordEntry list \<Rightarrow> string \<Rightarrow> WordEntry option" where
  "find_chain [] w = None"
| "find_chain (p # ps) w = (if entry_word p = w then Some p else find_chain ps w)"

definition find_word_entry :: "table \<Rightarrow> string \<Rightarrow> WordEntry option" where
  "find_word_entry tbl w = find_chain (tbl (unat (hash_str w))) w"

text \<open>
  The \<open>while (p)\<close> loop of \<open>insert_word\<close>: \<open>None\<close> when the chain has no entry for the
  word, else the chain after \<open>add_file_to_list\<close> on the first entry that has it.
\<close>

fun insert_chain :: "WordEntry list \<Rightarrow> string \<Rightarrow> string \<Rightarrow> heap \<Rightarrow> (WordEntry list \<times> heap) option" where
  "insert_chain [] w filename h = None"
| "insert_chain (p # ps) w filename h =
     (if entry_word p = w then
        (case add_file_to_list (Some p) filename h of
           (Some p', h') \<Rightarrow> Some (p' # ps, h')
         | (None, h') \<Rightarrow> Some (p # ps, h'))
      else (case insert_chain ps w filename h of
              None \<Rightarrow> None
            | Some (ps', h') \<Rightarrow> Some (p # ps', h')))"

fun insert_word :: "string option \<Rightarrow> string \<Rightarrow> table \<times> heap \<Rightarrow> table \<times> heap" where
  "insert_word None filename (tbl, h) = (tbl, h)"
| "insert_word (Some w) filename (tbl, h) =
     (if w = [] then (tbl, h)
      else let idx = unat (hash_str w) in
        case insert_chain (tbl idx) w filename h of
          Some (chain, h') \<Rightarrow> (tbl(idx := chain), h')
        | None \<Rightarrow>
            (case malloc h of
               (False, h1) \<Rightarrow> (tbl, h1)
             | (True, h1) \<Rightarrow>
                 (case malloc h1 of
                    (False, h2) \<Rightarrow> (tbl, h2)
                  | (True, h2) \<Rightarrow>
                      (case add_file_to_list (Some \<lparr>entry_word = w, entry_files = []\<rparr>) filename h2 of
                         (Some e, h3) \<Rightarrow> (tbl(idx := e # tbl idx), h3)
                       | (None, h3) \<Rightarrow>
                           (tbl(idx := \<lparr>entry_word = w, entry_files = []\<rparr> # tbl idx), h3)))))"

subsection \<open>index_file\<close>

text \<open>
  \<open>isalnum\<close> and \<open>tolower\<close> of the C library in the "C" locale (the program never calls
  \<open>setlocale\<close>), on an \<open>unsigned char\<close>.
\<close>

definition isalnum :: "char \<Rightarrow> bool" where
  "isalnum c = (let n = (of_char c :: nat) in
     (48 \<le> n \<and> n \<le> 57) \<or> (65 \<le> n \<and> n \<le> 90) \<or> (97 \<le> n \<and> n \<le> 122))"

definition tolower :: "char \<Rightarrow> char" where
  "tolower c = (let n = (of_char c :: nat) in
     if 65 \<le> n \<and> n \<le> 90 then char_of (n + 32) else c)"

text \<open>
  The \<open>fgetc\<close> loop over the rest of the file, with \<open>buf[0..len)\<close> as \<open>buf\<close>; the last
  equation is the flush after \<open>EOF\<close>. \<open>sizeof(buf) - 1\<close> is 255.
\<close>

fun index_scan :: "string \<Rightarrow> string \<Rightarrow> string \<Rightarrow> table \<times> heap \<Rightarrow> table \<times> heap" where
  "index_scan (ch # rest) buf displayname st =
     (if isalnum ch then
        (if length buf < 255 then index_scan rest (buf @ [tolower ch]) displayname st
         else index_scan rest buf displayname st)
      else
        (if length buf > 0 then index_scan rest [] displayname (insert_word (Some buf) displayname st)
         else index_scan rest buf displayname st))"
| "index_scan [] buf displayname st =
     (if length buf > 0 then insert_word (Some buf) displayname st else st)"

text \<open>The same loop, keeping the words it hands to \<open>insert_word\<close>, in order.\<close>

fun scan_tokens :: "string \<Rightarrow> string \<Rightarrow> string list" where
  "scan_tokens (ch # rest) buf =
     (if isalnum ch then
        (if length buf < 255 then scan_tokens rest (buf @ [tolower ch])
         else scan_tokens rest buf)
      else
        (if length buf > 0 then buf # scan_tokens rest []
         else scan_tokens rest buf))"
| "scan_tokens [] buf = (if length buf > 0 then [buf] else [])"


text \<open>The file system: path to content; \<open>fopen\<close> fails on a path that is not there.\<close>

type_synonym files = "string \<rightharpoonup> string"

definition index_file :: "files \<Rightarrow> string \<Rightarrow> string \<Rightarrow> table \<times> heap \<Rightarrow> table \<times> heap" where
  "index_file fs fullpath displayname st =
     (case fs fullpath of
        None \<Rightarrow> st
      | Some content \<Rightarrow> index_scan content [] displayname st)"

definition sample_full_paths :: "string list" where
  "sample_full_paths = [''texts/doc1.txt'', ''texts/doc2.txt'', ''texts/doc3.txt'']"

definition sample_basenames :: "string list" where
  "sample_basenames = [''doc1.txt'', ''doc2.txt'', ''doc3.txt'']"

definition index_static_files :: "files \<Rightarrow> table \<times> heap \<Rightarrow> table \<times> heap" where
  "index_static_files fs st =
     (let n = length sample_full_paths in
      foldl (\<lambda>st i. index_file fs (sample_full_paths ! i) (sample_basenames ! i) st) st [0..<n])"

section \<open>The LRU cache\<close>

record CacheSlot =
  slot_word :: "string option"
  slot_files :: "string list"

text \<open>
  \<open>cache_slots\<close> is the array, index to slot; the C array has the indices below
  \<open>CACHE_CAP\<close>. Static storage starts zeroed.
\<close>

record cache =
  cache_slots :: "nat \<Rightarrow> CacheSlot"
  cache_count :: nat

definition CACHE_CAP :: nat where
  "CACHE_CAP = 5"

definition init_cache :: cache where
  "init_cache = \<lparr>cache_slots = (\<lambda>i. \<lparr>slot_word = None, slot_files = []\<rparr>), cache_count = 0\<rparr>"

text \<open>\<open>strcmp\<close> on a null pointer is undefined behaviour: the model stops with a fault.\<close>

datatype fault = NullDeref

function cache_index_from :: "cache \<Rightarrow> string \<Rightarrow> nat \<Rightarrow> fault + int" where
  "cache_index_from c w i =
     (if i < cache_count c then
        (case slot_word (cache_slots c i) of
           None \<Rightarrow> Inl NullDeref
         | Some v \<Rightarrow> if v = w then Inr (int i) else cache_index_from c w (Suc i))
      else Inr (- 1))"
  by pat_completeness auto
termination
  by (relation "measure (\<lambda>(c, w, i). cache_count c - i)") auto

declare cache_index_from.simps [simp del]

definition cache_index_of :: "cache \<Rightarrow> string \<Rightarrow> fault + int" where
  "cache_index_of c w = cache_index_from c w 0"

text \<open>\<open>for (int j = idx; j > 0; --j) cache_slots[j] = cache_slots[j - 1];\<close>\<close>

fun shift_slots :: "nat \<Rightarrow> (nat \<Rightarrow> CacheSlot) \<Rightarrow> (nat \<Rightarrow> CacheSlot)" where
  "shift_slots 0 s = s"
| "shift_slots (Suc j) s = shift_slots j (s(Suc j := s j))"

definition cache_get :: "string \<Rightarrow> cache \<Rightarrow> fault + (string list \<times> cache)" where
  "cache_get w c =
     (case cache_index_of c w of
        Inl e \<Rightarrow> Inl e
      | Inr idx \<Rightarrow>
          if idx < 0 then Inr ([], c)
          else
            let hit = cache_slots c (nat idx);
                s1 = shift_slots (nat idx) (cache_slots c);
                s2 = s1(0 := hit)
            in Inr (slot_files (s2 0), c\<lparr>cache_slots := s2\<rparr>))"

definition cache_put :: "string option \<Rightarrow> string list \<Rightarrow> cache \<Rightarrow> fault + cache" where
  "cache_put word_ptr_in_table fs c =
     (case word_ptr_in_table of
        None \<Rightarrow> Inr c
      | Some w \<Rightarrow>
          if fs = [] then Inr c
          else
            (case cache_index_of c w of
               Inl e \<Rightarrow> Inl e
             | Inr idx \<Rightarrow>
                 if idx \<ge> 0 then
                   let s0 = (cache_slots c)(nat idx := (cache_slots c (nat idx))\<lparr>slot_files := fs\<rparr>);
                       hit = s0 (nat idx);
                       s1 = shift_slots (nat idx) s0;
                       s2 = s1(0 := hit)
                   in Inr (c\<lparr>cache_slots := s2\<rparr>)
                 else
                   let limit = (if cache_count c < CACHE_CAP then cache_count c else CACHE_CAP - 1);
                       s1 = shift_slots limit (cache_slots c);
                       s2 = s1(0 := (s1 0)\<lparr>slot_word := Some w\<rparr>);
                       s3 = s2(0 := (s2 0)\<lparr>slot_files := fs\<rparr>)
                   in Inr (c\<lparr>cache_slots := s3,
                             cache_count := (if cache_count c < CACHE_CAP then cache_count c + 1
                                             else cache_count c)\<rparr>)))"

section \<open>Lookup and the interactive loop\<close>

text \<open>\<open>lookup_with_cache\<close> gives the list it returns, what it printed and the cache afterwards.\<close>

definition lookup_with_cache :: "table \<Rightarrow> string \<Rightarrow> cache \<Rightarrow> fault + (string list \<times> string \<times> cache)" where
  "lookup_with_cache tbl w c =
     (case cache_get w c of
        Inl x \<Rightarrow> Inl x
      | Inr (fs, c1) \<Rightarrow>
          if fs \<noteq> [] then Inr (fs, ''from cache\<newline>'', c1)
          else
            (case find_word_entry tbl w of
               None \<Rightarrow> Inr ([], [], c1)
             | Some e \<Rightarrow>
                 if entry_files e \<noteq> [] then
                   (case cache_put (Some (entry_word e)) (entry_files e) c1 of
                      Inl x \<Rightarrow> Inl x
                    | Inr c2 \<Rightarrow> Inr (entry_files e, ''from hash table\<newline>'', c2))
                 else Inr ([], [], c1)))"

fun normalize_word_inplace :: "string \<Rightarrow> string" where
  "normalize_word_inplace [] = []"
| "normalize_word_inplace (c # s) =
     (if isalnum c then tolower c # normalize_word_inplace s else normalize_word_inplace s)"

fun print_files_from :: "string list \<Rightarrow> nat \<Rightarrow> string" where
  "print_files_from [] count = (if count = 0 then ''not found\<newline>'' else [])"
| "print_files_from (p # ps) count =
     (if count = 0 then ''found in: '' else []) @ p @ (if ps \<noteq> [] then '' '' else ''\<newline>'')
       @ print_files_from ps (Suc count)"

definition print_files :: "string list \<Rightarrow> string" where
  "print_files fs = print_files_from fs 0"

text \<open>
  One turn of the loop of \<open>main\<close> after \<open>fgets\<close> has filled \<open>line\<close>: \<open>None\<close> is the
  \<open>break\<close> on an empty line, else what the turn printed and the cache afterwards.
  \<open>strip_newline\<close> is its first statement, which drops one trailing newline or
  carriage return.
\<close>

definition strip_newline :: "string \<Rightarrow> string" where
  "strip_newline line =
     (if length line > 0 \<and> (last line = CHR 0x0A \<or> last line = CHR 0x0D)
      then butlast line else line)"

definition serve_line :: "table \<Rightarrow> string \<Rightarrow> cache \<Rightarrow> fault + (string \<times> cache) option" where
  "serve_line tbl line c =
     (let l1 = strip_newline line
      in if length l1 = 0 then Inr None
         else
           let l2 = normalize_word_inplace l1
           in if l2 = [] then Inr (Some (''pls type letters/numbers\<newline>'', c))
              else
                (case lookup_with_cache tbl l2 c of
                   Inl x \<Rightarrow> Inl x
                 | Inr (fs, out, c') \<Rightarrow>
                     if fs \<noteq> [] then Inr (Some (out @ print_files fs, c'))
                     else Inr (Some (out @ ''not found\<newline>'', c'))))"

text \<open>
  The loop over the lines \<open>fgets\<close> delivers; the end of the list is end of input.
  The result is everything printed.
\<close>

fun main_loop :: "table \<Rightarrow> string list \<Rightarrow> cache \<Rightarrow> fault + string" where
  "main_loop tbl [] c = Inr ''> ''"
| "main_loop tbl (line # rest) c =
     (case serve_line tbl line c of
        Inl x \<Rightarrow> Inl x
      | Inr None \<Rightarrow> Inr ''> ''
      | Inr (Some (out, c')) \<Rightarrow>
          (case main_loop tbl rest c' of
             Inl x \<Rightarrow> Inl x
           | Inr later \<Rightarrow> Inr (''> '' @ out @ later)))"

definition main :: "files \<Rightarrow> heap \<Rightarrow> string list \<Rightarrow> fault + string" where
  "main fs h input =
     (let (tbl, h') = index_static_files fs (empty_table, h)
      in case main_loop tbl input init_cache of
           Inl x \<Rightarrow> Inl x
         | Inr out \<Rightarrow>
             Inr (''indexed files from ./texts (doc1.txt, doc2.txt, doc3.txt)\<newline>''
                  @ ''type a word to search (empty line to quit)\<newline>'' @ out))"

section \<open>Notions the properties are stated with\<close>


text \<open>The slots in use, most recently used first, and whether a word has one.\<close>

definition occupied :: "cache \<Rightarrow> CacheSlot list" where
  "occupied c = map (cache_slots c) [0..<cache_count c]"

definition cached :: "cache \<Rightarrow> string \<Rightarrow> bool" where
  "cached c w = (Some w \<in> set (map slot_word (occupied c)))"

text \<open>
  The cache states the program can be in: those that calls of \<open>cache_get\<close> and
  \<open>cache_put\<close>, with any arguments and in any order, make of the initial cache.
\<close>

datatype cache_op = Get string | Put "string option" "string list"

fun apply_op :: "cache_op \<Rightarrow> cache \<Rightarrow> fault + cache" where
  "apply_op (Get w) c = (case cache_get w c of Inl x \<Rightarrow> Inl x | Inr (fs, c') \<Rightarrow> Inr c')"
| "apply_op (Put wp fs) c = cache_put wp fs c"

fun run_ops :: "cache_op list \<Rightarrow> cache \<Rightarrow> fault + cache" where
  "run_ops [] c = Inr c"
| "run_ops (x # xs) c = (case apply_op x c of Inl e \<Rightarrow> Inl e | Inr c' \<Rightarrow> run_ops xs c')"

definition cache_inv :: "cache \<Rightarrow> bool" where
  "cache_inv c =
     (cache_count c \<le> CACHE_CAP
      \<and> list_all (\<lambda>s. slot_word s \<noteq> None \<and> slot_files s \<noteq> []) (occupied c)
      \<and> distinct (map slot_word (occupied c)))"

text \<open>
  Recency, read off the run of operations alone. An operation uses the word \<open>w\<close> when
  it is a get of \<open>w\<close> or a put of \<open>w\<close> that passes the guard of \<open>cache_put\<close>. \<open>last_use\<close>
  is the position in the run, counted from 1, of the last operation that uses \<open>w\<close>, and
  0 when none does; \<open>use_time\<close> is that of the word in a slot. (A get of a word that has
  no slot counts as well; it changes nothing, and for a word that has a slot the last
  operation that uses it is a put or a hit, since only a put gives a word a slot.)
\<close>

fun touches :: "cache_op \<Rightarrow> string \<Rightarrow> bool" where
  "touches (Get v) w = (v = w)"
| "touches (Put wp fs) w = (wp = Some w \<and> fs \<noteq> [])"

definition last_use :: "cache_op list \<Rightarrow> string \<Rightarrow> nat" where
  "last_use ops w = length (dropWhile (\<lambda>x. \<not> touches x w) (rev ops))"

definition use_time :: "cache_op list \<Rightarrow> CacheSlot \<Rightarrow> nat" where
  "use_time ops s = (case slot_word s of None \<Rightarrow> 0 | Some w \<Rightarrow> last_use ops w)"

text \<open>The slots are in the order of their last use, latest first, and each was used.\<close>

definition by_recency :: "cache_op list \<Rightarrow> CacheSlot list \<Rightarrow> bool" where
  "by_recency ops ss =
     (sorted_wrt (\<lambda>a b. use_time ops b < use_time ops a) ss \<and> list_all (\<lambda>s. 0 < use_time ops s) ss)"

text \<open>
  What a lookup lets its caller see: the list returned and the text printed. The line
  printed tells where the list came from.
\<close>

definition lookup_report :: "table \<Rightarrow> string \<Rightarrow> cache \<Rightarrow> (string list \<times> string) option" where
  "lookup_report tbl w c =
     (case lookup_with_cache tbl w c of Inl x \<Rightarrow> None | Inr (fs, out, c') \<Rightarrow> Some (fs, out))"

datatype provenance = FromCache | FromIndex

definition provenance_of :: "string \<Rightarrow> provenance option" where
  "provenance_of out =
     (if out = ''from cache\<newline>'' then Some FromCache
      else if out = ''from hash table\<newline>'' then Some FromIndex
      else None)"

text \<open>A query trace: the lookups made one after the other, each on the cache the last one left.\<close>

fun run_lookups :: "table \<Rightarrow> string list \<Rightarrow> cache \<Rightarrow> fault + cache" where
  "run_lookups tbl [] c = Inr c"
| "run_lookups tbl (q # qs) c =
     (case lookup_with_cache tbl q c of
        Inl x \<Rightarrow> Inl x
      | Inr (fs, out, c') \<Rightarrow> run_lookups tbl qs c')"

text \<open>The lookup of \<open>w\<close> that follows the trace \<open>qs\<close>, the cache being empty at index build.\<close>

definition report_after :: "table \<Rightarrow> string list \<Rightarrow> string \<Rightarrow> (string list \<times> string) option" where
  "report_after tbl qs w =
     (case run_lookups tbl qs init_cache of Inl x \<Rightarrow> None | Inr c \<Rightarrow> lookup_report tbl w c)"

definition served_from :: "table \<Rightarrow> string list \<Rightarrow> string \<Rightarrow> provenance option" where
  "served_from tbl qs w =
     (case report_after tbl qs w of None \<Rightarrow> None | Some (fs, out) \<Rightarrow> provenance_of out)"

text \<open>The index has the word, with a document list that is not null.\<close>

definition indexed :: "table \<Rightarrow> string \<Rightarrow> bool" where
  "indexed tbl w = (case find_word_entry tbl w of None \<Rightarrow> False | Some e \<Rightarrow> entry_files e \<noteq> [])"

text \<open>
  A lookup evicts \<open>w\<close> when \<open>w\<close> has a slot before it and none after it. \<open>kept\<close>: no
  lookup of the trace evicts \<open>w\<close>. \<open>queried_unevicted\<close>: the trace has a lookup of \<open>w\<close>
  after which no lookup evicts \<open>w\<close>, that is, \<open>w\<close> was queried since it was last evicted
  or, if it never was, since index build.
\<close>

fun kept :: "table \<Rightarrow> cache \<Rightarrow> string list \<Rightarrow> string \<Rightarrow> bool" where
  "kept tbl c [] w = True"
| "kept tbl c (q # qs) w =
     (case lookup_with_cache tbl q c of
        Inl x \<Rightarrow> False
      | Inr (fs, out, c') \<Rightarrow> \<not> (cached c w \<and> \<not> cached c' w) \<and> kept tbl c' qs w)"

fun queried_unevicted :: "table \<Rightarrow> cache \<Rightarrow> string list \<Rightarrow> string \<Rightarrow> bool" where
  "queried_unevicted tbl c [] w = False"
| "queried_unevicted tbl c (q # qs) w =
     (case lookup_with_cache tbl q c of
        Inl x \<Rightarrow> False
      | Inr (fs, out, c') \<Rightarrow> (q = w \<and> kept tbl c' qs w) \<or> queried_unevicted tbl c' qs w)"

text \<open>A run of \<open>insert_word\<close> calls, each with a word and a document.\<close>

fun run_inserts :: "(string \<times> string) list \<Rightarrow> table \<times> heap \<Rightarrow> table \<times> heap" where
  "run_inserts [] st = st"
| "run_inserts ((w, d) # ops) st = run_inserts ops (insert_word (Some w) d st)"

text \<open>
  The two documents of the scenario, indexed one after the other with every allocation
  succeeding.
\<close>

definition scenario_files :: files where
  "scenario_files =
     [''texts/doc1.txt'' \<mapsto> ''apple banana'', ''texts/doc2.txt'' \<mapsto> ''banana cherry'']"

definition scenario_table :: table where
  "scenario_table =
     fst (index_file scenario_files ''texts/doc2.txt'' ''doc2.txt''
            (index_file scenario_files ''texts/doc1.txt'' ''doc1.txt'' (empty_table, [])))"

text \<open>The documents the index has for a word: the list \<open>find_word_entry\<close> leads to.\<close>

definition docs :: "table \<Rightarrow> string \<Rightarrow> string list" where
  "docs tbl w = (case find_word_entry tbl w of None \<Rightarrow> [] | Some e \<Rightarrow> entry_files e)"

text \<open>
  Every allocation made while the allocator went from \<open>h\<close> to \<open>h'\<close> succeeded: the
  outcomes used up in between have no \<open>False\<close>.
\<close>

definition allocs_ok :: "heap \<Rightarrow> heap \<Rightarrow> bool" where
  "allocs_ok h h' = (False \<notin> set (take (length h - length h') h))"

text \<open>A sample run of inserts.\<close>

definition three_inserts :: "(string \<times> string) list" where
  "three_inserts = [(''apple'', ''doc1.txt''), (''pear'', ''doc2.txt''), (''apple'', ''doc1.txt'')]"

text \<open>Sample runs of the cache.\<close>

definition five_puts :: "cache_op list" where
  "five_puts = [Put (Some ''a'') [''d1''], Put (Some ''b'') [''d1''], Put (Some ''c'') [''d1''],
                Put (Some ''d'') [''d1''], Put (Some ''e'') [''d1'']]"

definition five_puts_get :: "cache_op list" where
  "five_puts_get = five_puts @ [Get ''a'']"

definition two_puts :: "cache_op list" where
  "two_puts = [Put (Some ''a'') [''d1''], Put (Some ''b'') [''d2'']]"

section \<open>Theorems\<close>

subsection \<open>The hash and the table bounds\<close>

lemma hash_str_less: "unat (hash_str s) < HASH_SIZE"
proof -
  have "hash_str s < 10007"
    unfolding hash_str_def by (rule word_mod_less_divisor) simp
  then show ?thesis
    by (simp add: HASH_SIZE_def word_less_nat_alt)
qed

lemma insert_word_other_bucket:
  "i \<noteq> unat (hash_str s) \<Longrightarrow> fst (insert_word (Some s) filename (tbl, h)) i = tbl i"
  by (simp add: Let_def split: option.split prod.split bool.split del: add_file_to_list.simps)

lemma insert_word_touches_one_bucket:
  "\<exists>chain h'. insert_word (Some s) filename (tbl, h) = (tbl(unat (hash_str s) := chain), h')"
proof -
  obtain t' h' where r: "insert_word (Some s) filename (tbl, h) = (t', h')"
    by (cases "insert_word (Some s) filename (tbl, h)")
  have e: "t' = tbl(unat (hash_str s) := t' (unat (hash_str s)))"
  proof
    fix i
    show "t' i = (tbl(unat (hash_str s) := t' (unat (hash_str s)))) i"
      using insert_word_other_bucket [of i s filename tbl h] r by (cases "i = unat (hash_str s)") simp_all
  qed
  have "insert_word (Some s) filename (tbl, h) = (tbl(unat (hash_str s) := t' (unat (hash_str s))), h')"
    using r e by simp
  then show ?thesis by (intro exI)
qed


text \<open>
  C9. \<open>hash_str\<close> is below the table size 10007 for every string, and the bucket it
  names is the only one that \<open>find_word_entry\<close> reads and \<open>insert_word\<close> reads or writes.
\<close>

theorem hash_str_within_table:
  "unat (hash_str s) < HASH_SIZE
   \<and> HASH_SIZE = 10007
   \<and> find_word_entry tbl s = find_chain (tbl (unat (hash_str s))) s
   \<and> (\<exists>chain h'. insert_word (Some s) filename (tbl, h) = (tbl(unat (hash_str s) := chain), h'))"
  using hash_str_less [of s] insert_word_touches_one_bucket [of s filename tbl h]
  by (simp add: find_word_entry_def HASH_SIZE_def)

subsection \<open>The empty word\<close>

text \<open>
  C8. \<open>insert_word\<close> with the empty word returns at once: the table (every bucket, every
  document list) and the allocator are as before, and the function has no error result.
\<close>

theorem insert_word_empty_noop:
  "insert_word (Some []) d (tbl, h) = (tbl, h)"
  by simp

subsection \<open>The tokenizer\<close>










subsection \<open>Inserting and finding\<close>

lemma filelist_contains_iff: "filelist_contains fs f \<longleftrightarrow> f \<in> set fs"
  by (induction fs) auto

lemma malloc_ok: "False \<notin> set h \<Longrightarrow> \<exists>h'. malloc h = (True, h') \<and> False \<notin> set h'"
  by (cases h) auto

lemma add_file_cases:
  "\<exists>e' h'. add_file_to_list (Some e) f h = (Some e', h') \<and> entry_word e' = entry_word e
     \<and> (entry_files e' = entry_files e \<or> (f \<notin> set (entry_files e) \<and> entry_files e' = f # entry_files e))"
  by (auto simp add: filelist_contains_iff split: prod.splits bool.splits)

lemma add_file_ok:
  assumes "False \<notin> set h"
  shows "\<exists>e' h'. add_file_to_list (Some e) f h = (Some e', h') \<and> False \<notin> set h'
     \<and> entry_word e' = entry_word e \<and> f \<in> set (entry_files e')"
proof -
  from malloc_ok [OF assms] obtain h1 where h1: "malloc h = (True, h1)" "False \<notin> set h1"
    by blast
  from malloc_ok [OF h1(2)] obtain h2 where h2: "malloc h1 = (True, h2)" "False \<notin> set h2"
    by blast
  from assms h1 h2 show ?thesis
    by (simp add: filelist_contains_iff)
qed

lemma insert_chain_None:
  "insert_chain ch w f h = None \<longleftrightarrow> find_chain ch w = None"
proof (induction ch)
  case Nil
  show ?case by simp
next
  case (Cons p ps)
  from add_file_cases [of p f h] obtain p' h' where "add_file_to_list (Some p) f h = (Some p', h')"
    by blast
  with Cons show ?case
    by (cases "insert_chain ps w f h") (auto simp del: add_file_to_list.simps)
qed

lemma insert_chain_other:
  "v \<noteq> w \<Longrightarrow> insert_chain ch w f h = Some (ch', h') \<Longrightarrow> find_chain ch' v = find_chain ch v"
proof (induction ch arbitrary: ch')
  case Nil
  then show ?case by simp
next
  case (Cons p ps)
  from add_file_cases [of p f h] obtain p' h1
    where a: "add_file_to_list (Some p) f h = (Some p', h1)" "entry_word p' = entry_word p"
    by blast
  show ?case
  proof (cases "entry_word p = w")
    case True
    with Cons.prems a show ?thesis
      by (auto simp del: add_file_to_list.simps)
  next
    case False
    with Cons.prems obtain ps' where ps': "insert_chain ps w f h = Some (ps', h')" "ch' = p # ps'"
      by (auto simp del: add_file_to_list.simps split: option.splits)
    with Cons.IH [OF Cons.prems(1) ps'(1)] show ?thesis
      by simp
  qed
qed

lemma insert_chain_same:
  "insert_chain ch w f h = Some (ch', h') \<Longrightarrow>
   \<exists>e e'. find_chain ch w = Some e \<and> find_chain ch' w = Some e'
      \<and> add_file_to_list (Some e) f h = (Some e', h')"
proof (induction ch arbitrary: ch')
  case Nil
  then show ?case by simp
next
  case (Cons p ps)
  from add_file_cases [of p f h] obtain p' h1
    where a: "add_file_to_list (Some p) f h = (Some p', h1)" "entry_word p' = entry_word p"
    by blast
  show ?case
  proof (cases "entry_word p = w")
    case True
    with Cons.prems a show ?thesis
      by (auto simp del: add_file_to_list.simps)
  next
    case False
    with Cons.prems obtain ps' where ps': "insert_chain ps w f h = Some (ps', h')" "ch' = p # ps'"
      by (auto simp del: add_file_to_list.simps split: option.splits)
    with Cons.IH [OF ps'(1)] False show ?thesis
      by simp
  qed
qed

lemma insert_word_other:
  assumes "v \<noteq> w"
  shows "find_word_entry (fst (insert_word (Some w) f (tbl, h))) v = find_word_entry tbl v"
proof (cases "unat (hash_str v) = unat (hash_str w)")
  case False
  from insert_word_other_bucket [OF this, of f tbl h] show ?thesis
    by (simp add: find_word_entry_def del: insert_word.simps)
next
  case True
  show ?thesis
  proof (cases "w = []")
    case True
    then show ?thesis by simp
  next
    case False
    show ?thesis
    proof (cases "insert_chain (tbl (unat (hash_str w))) w f h")
      case (Some r)
      obtain ch' h' where r: "r = (ch', h')" by (cases r)
      from insert_chain_other [OF assms Some [unfolded r]] False Some r True show ?thesis
        by (simp add: find_word_entry_def)
    next
      case None
      from add_file_cases [of "\<lparr>entry_word = w, entry_files = []\<rparr>" f]
      have "\<And>h2. \<exists>e' h'. add_file_to_list (Some \<lparr>entry_word = w, entry_files = []\<rparr>) f h2 = (Some e', h')
          \<and> entry_word e' = w"
        by (metis WordEntry.select_convs(1))
      then obtain e' h3 where a: "\<And>h2. add_file_to_list (Some \<lparr>entry_word = w, entry_files = []\<rparr>) f h2 = (Some (e' h2), h3 h2)"
          "\<And>h2. entry_word (e' h2) = w"
        by metis
      from None False True assms a show ?thesis
        by (auto simp add: find_word_entry_def Let_def simp del: add_file_to_list.simps
            split: prod.splits bool.splits)
    qed
  qed
qed

lemma find_chain_word: "find_chain ch w = Some e \<Longrightarrow> entry_word e = w"
  by (induction ch) (auto split: if_splits)

lemma insert_word_same:
  "docs (fst (insert_word (Some w) f (tbl, h))) w = docs tbl w
   \<or> (f \<notin> set (docs tbl w) \<and> docs (fst (insert_word (Some w) f (tbl, h))) w = f # docs tbl w)"
proof (cases "w = []")
  case True
  then show ?thesis by simp
next
  case False
  let ?i = "unat (hash_str w)"
  show ?thesis
  proof (cases "insert_chain (tbl ?i) w f h")
    case (Some r)
    obtain ch' h' where r: "r = (ch', h')" by (cases r)
    from insert_chain_same [OF Some [unfolded r]] obtain e e'
      where e: "find_chain (tbl ?i) w = Some e" "find_chain ch' w = Some e'"
        "add_file_to_list (Some e) f h = (Some e', h')"
      by blast
    from add_file_cases [of e f h] e(3)
    have "entry_files e' = entry_files e \<or> (f \<notin> set (entry_files e) \<and> entry_files e' = f # entry_files e)"
      by simp
    with False Some r e(1,2) show ?thesis
      by (simp add: docs_def find_word_entry_def)
  next
    case None
    then have none: "find_chain (tbl ?i) w = None"
      by (simp add: insert_chain_None)
    obtain b1 h1 where m1: "malloc h = (b1, h1)" by (cases "malloc h")
    obtain b2 h2 where m2: "malloc h1 = (b2, h2)" by (cases "malloc h1")
    from add_file_cases [of "\<lparr>entry_word = w, entry_files = []\<rparr>" f h2] obtain e' h3
      where a: "add_file_to_list (Some \<lparr>entry_word = w, entry_files = []\<rparr>) f h2 = (Some e', h3)"
        "entry_word e' = w" "entry_files e' = [] \<or> entry_files e' = [f]"
      by auto
    show ?thesis
    proof (cases "b1 \<and> b2")
      case True
      with False None none m1 m2 a show ?thesis
        by (auto simp add: docs_def find_word_entry_def Let_def simp del: add_file_to_list.simps)
    next
      case no: False
      with False None m1 m2 have "fst (insert_word (Some w) f (tbl, h)) = tbl"
        by (cases b1) (simp_all add: Let_def del: add_file_to_list.simps)
      then show ?thesis by simp
    qed
  qed
qed

lemma insert_word_same_ok:
  assumes "w \<noteq> []" "False \<notin> set h"
  shows "\<exists>tbl' h' e'. insert_word (Some w) f (tbl, h) = (tbl', h') \<and> False \<notin> set h'
     \<and> find_word_entry tbl' w = Some e' \<and> f \<in> set (entry_files e')"
proof -
  let ?i = "unat (hash_str w)"
  show ?thesis
  proof (cases "insert_chain (tbl ?i) w f h")
    case (Some r)
    obtain ch' h' where r: "r = (ch', h')" by (cases r)
    from insert_chain_same [OF Some [unfolded r]] obtain e e'
      where e: "find_chain (tbl ?i) w = Some e" "find_chain ch' w = Some e'"
        "add_file_to_list (Some e) f h = (Some e', h')"
      by blast
    from add_file_ok [OF assms(2), of e f] e(3) have "False \<notin> set h'" "f \<in> set (entry_files e')"
      by simp_all
    with assms(1) Some r e(2) show ?thesis
      by (simp add: find_word_entry_def)
  next
    case None
    from malloc_ok [OF assms(2)] obtain h1 where h1: "malloc h = (True, h1)" "False \<notin> set h1"
      by blast
    from malloc_ok [OF h1(2)] obtain h2 where h2: "malloc h1 = (True, h2)" "False \<notin> set h2"
      by blast
    from add_file_ok [OF h2(2), of "\<lparr>entry_word = w, entry_files = []\<rparr>" f] obtain e' h3
      where a: "add_file_to_list (Some \<lparr>entry_word = w, entry_files = []\<rparr>) f h2 = (Some e', h3)"
        "False \<notin> set h3" "entry_word e' = w" "f \<in> set (entry_files e')"
      by auto
    with assms(1) None h1 h2 show ?thesis
      by (simp add: find_word_entry_def Let_def del: add_file_to_list.simps)
  qed
qed

lemma insert_word_heap_ok:
  assumes "False \<notin> set h"
  shows "False \<notin> set (snd (insert_word (Some w) f (tbl, h)))"
proof (cases "w = []")
  case True
  with assms show ?thesis by simp
next
  case False
  from insert_word_same_ok [OF False assms, of f tbl] show ?thesis
    by auto
qed

lemma insert_word_docs_other:
  "v \<noteq> w \<Longrightarrow> docs (fst (insert_word (Some w) f (tbl, h))) v = docs tbl v"
  by (simp add: docs_def insert_word_other del: insert_word.simps)

lemma insert_word_docs_distinct:
  assumes "distinct (docs tbl v)"
  shows "distinct (docs (fst (insert_word (Some w) f (tbl, h))) v)"
proof (cases "v = w")
  case False
  with assms show ?thesis by (simp add: insert_word_docs_other del: insert_word.simps)
next
  case True
  with assms insert_word_same [of w f tbl h] show ?thesis
    by auto
qed

lemma insert_word_docs_keep:
  assumes "d \<in> set (docs tbl v)"
  shows "d \<in> set (docs (fst (insert_word (Some w) f (tbl, h))) v)"
proof (cases "v = w")
  case False
  with assms show ?thesis by (simp add: insert_word_docs_other del: insert_word.simps)
next
  case True
  with assms insert_word_same [of w f tbl h] show ?thesis
    by auto
qed

lemma run_inserts_distinct:
  "distinct (docs tbl v) \<Longrightarrow> distinct (docs (fst (run_inserts ops (tbl, h))) v)"
proof (induction ops arbitrary: tbl h)
  case Nil
  then show ?case by simp
next
  case (Cons x ops)
  obtain w f where x: "x = (w, f)" by (cases x)
  obtain t1 h1 where s: "insert_word (Some w) f (tbl, h) = (t1, h1)"
    by (cases "insert_word (Some w) f (tbl, h)")
  from insert_word_docs_distinct [OF Cons.prems, of w f h] s have "distinct (docs t1 v)"
    by simp
  from Cons.IH [OF this, of h1] x s show ?case
    by simp
qed

lemma run_inserts_keep:
  "d \<in> set (docs tbl v) \<Longrightarrow> d \<in> set (docs (fst (run_inserts ops (tbl, h))) v)"
proof (induction ops arbitrary: tbl h)
  case Nil
  then show ?case by simp
next
  case (Cons x ops)
  obtain w f where x: "x = (w, f)" by (cases x)
  obtain t1 h1 where s: "insert_word (Some w) f (tbl, h) = (t1, h1)"
    by (cases "insert_word (Some w) f (tbl, h)")
  from insert_word_docs_keep [OF Cons.prems, of w f h] s have "d \<in> set (docs t1 v)"
    by simp
  from Cons.IH [OF this, of h1] x s show ?case
    by simp
qed

lemma run_inserts_records:
  "w \<noteq> [] \<Longrightarrow> (w, d) \<in> set ops \<Longrightarrow> False \<notin> set h \<Longrightarrow>
   d \<in> set (docs (fst (run_inserts ops (tbl, h))) w)"
proof (induction ops arbitrary: tbl h)
  case Nil
  then show ?case by simp
next
  case (Cons x ops)
  obtain w' f where x: "x = (w', f)" by (cases x)
  obtain t1 h1 where s: "insert_word (Some w') f (tbl, h) = (t1, h1)"
    by (cases "insert_word (Some w') f (tbl, h)")
  from insert_word_heap_ok [OF Cons.prems(3), of w' f tbl] s have h1: "False \<notin> set h1"
    by simp
  show ?case
  proof (cases "x = (w, d)")
    case True
    with x have wf: "w' = w" "f = d" by simp_all
    from insert_word_same_ok [OF Cons.prems(1,3), of d tbl] s wf have "d \<in> set (docs t1 w)"
      by (auto simp add: docs_def)
    from run_inserts_keep [OF this, of ops h1] x s show ?thesis
      by simp
  next
    case False
    with Cons.prems(2) have "(w, d) \<in> set ops" by simp
    from Cons.IH [OF Cons.prems(1) this h1, of t1] x s show ?thesis
      by simp
  qed
qed

lemma count_list_distinct:
  "distinct xs \<Longrightarrow> count_list xs d = (if d \<in> set xs then 1 else 0)"
  by (induction xs) auto

lemma docs_empty_table: "docs empty_table v = []"
  by (simp add: docs_def find_word_entry_def empty_table_def)

lemma run_inserts_append:
  "run_inserts (pre @ post) st = run_inserts post (run_inserts pre st)"
  by (induction pre st rule: run_inserts.induct) simp_all


lemma add_file_heap_length:
  "length (snd (add_file_to_list e f h)) \<le> length h"
  by (cases e; cases h; cases "tl h") (auto split: prod.splits bool.splits)

lemma add_file_allocs_ok:
  assumes "add_file_to_list (Some e) f h = (Some e', h')" "allocs_ok h h'"
  shows "f \<in> set (entry_files e')"
proof (cases "f \<in> set (entry_files e)")
  case True
  with assms(1) show ?thesis
    by (simp add: filelist_contains_iff)
next
  case False
  show ?thesis
  proof (cases h)
    case Nil
    with assms(1) False show ?thesis
      by (auto simp add: filelist_contains_iff)
  next
    case (Cons b1 h1)
    show ?thesis
    proof (cases h1)
      case Nil
      with Cons assms False show ?thesis
        by (cases b1) (auto simp add: filelist_contains_iff allocs_ok_def)
    next
      case (Cons b2 h2)
      with \<open>h = b1 # h1\<close> assms False show ?thesis
        by (cases b1; cases b2) (auto simp add: filelist_contains_iff allocs_ok_def)
    qed
  qed
qed

lemma allocs_ok_tail:
  "length h' \<le> length h \<Longrightarrow> allocs_ok (b # h) h' \<Longrightarrow> b \<and> allocs_ok h h'"
  by (auto simp add: allocs_ok_def Suc_diff_le)

lemma insert_word_allocs_ok:
  assumes "w \<noteq> []" "allocs_ok h (snd (insert_word (Some w) f (tbl, h)))"
  shows "\<exists>e'. find_word_entry (fst (insert_word (Some w) f (tbl, h))) w = Some e'
     \<and> f \<in> set (entry_files e')"
proof -
  let ?i = "unat (hash_str w)"
  let ?new = "\<lparr>entry_word = w, entry_files = []\<rparr>"
  show ?thesis
  proof (cases "insert_chain (tbl ?i) w f h")
    case (Some r)
    obtain ch' h' where r: "r = (ch', h')" by (cases r)
    from insert_chain_same [OF Some [unfolded r]] obtain e e'
      where e: "find_chain (tbl ?i) w = Some e" "find_chain ch' w = Some e'"
        "add_file_to_list (Some e) f h = (Some e', h')"
      by blast
    from assms Some r have "allocs_ok h h'"
      by simp
    from add_file_allocs_ok [OF e(3) this] have "f \<in> set (entry_files e')" .
    with assms(1) Some r e(2) show ?thesis
      by (simp add: find_word_entry_def)
  next
    case None
    have fin: ?thesis
      if a: "add_file_to_list (Some ?new) f k = (Some e', k')" "allocs_ok k k'"
        and r: "insert_word (Some w) f (tbl, h) = (tbl(?i := e' # tbl ?i), k')" for k k' e'
    proof -
      from add_file_cases [of ?new f k] a(1) have "entry_word e' = w" by auto
      with add_file_allocs_ok [OF a] r show ?thesis
        by (simp add: find_word_entry_def del: insert_word.simps)
    qed
    obtain e3 k3 where a3: "\<And>k. add_file_to_list (Some ?new) f k = (Some (e3 k), k3 k)"
      using add_file_cases [of ?new f] by metis
    have len: "length (k3 k) \<le> length k" for k
      using add_file_heap_length [of "Some ?new" f k] a3 [of k] by simp
    show ?thesis
    proof (cases h)
      case Nil
      with assms(1) None a3 [of "[]"] have "insert_word (Some w) f (tbl, h) = (tbl(?i := e3 [] # tbl ?i), k3 [])"
        by (simp add: Let_def del: add_file_to_list.simps)
      moreover have "allocs_ok [] (k3 [])" by (simp add: allocs_ok_def)
      ultimately show ?thesis using a3 [of "[]"] by (intro fin)
    next
      case (Cons b1 h1)
      note h = this
      show ?thesis
      proof (cases b1)
        case False
        with assms None h show ?thesis
          by (simp add: Let_def allocs_ok_def del: add_file_to_list.simps)
      next
        case True
        note b1 = this
        show ?thesis
        proof (cases h1)
          case Nil
          with assms(1) None h b1 a3 [of "[]"]
          have "insert_word (Some w) f (tbl, h) = (tbl(?i := e3 [] # tbl ?i), k3 [])"
            by (simp add: Let_def del: add_file_to_list.simps)
          moreover have "allocs_ok [] (k3 [])" by (simp add: allocs_ok_def)
          ultimately show ?thesis using a3 [of "[]"] by (intro fin)
        next
          case (Cons b2 h2)
          note h1 = this
          show ?thesis
          proof (cases b2)
            case False
            with assms None h h1 b1 show ?thesis
              by (simp add: Let_def allocs_ok_def del: add_file_to_list.simps)
          next
            case True
            with assms(1) None h h1 b1 a3 [of h2]
            have r: "insert_word (Some w) f (tbl, h) = (tbl(?i := e3 h2 # tbl ?i), k3 h2)"
              by (simp add: Let_def del: add_file_to_list.simps)
            with assms(2) h h1 have "allocs_ok (b1 # b2 # h2) (k3 h2)"
              by simp
            with len [of h2] have "allocs_ok h2 (k3 h2)"
              using allocs_ok_tail [of "k3 h2" "b2 # h2" b1] allocs_ok_tail [of "k3 h2" h2 b2]
              by simp
            with r a3 [of h2] show ?thesis by (intro fin)
          qed
        qed
      qed
    qed
  qed
qed

lemma run_inserts_allocs_ok:
  assumes "w \<noteq> []"
    "allocs_ok (snd (run_inserts pre (tbl, h))) (snd (insert_word (Some w) d (run_inserts pre (tbl, h))))"
  shows "d \<in> set (docs (fst (run_inserts (pre @ (w, d) # post) (tbl, h))) w)"
proof -
  obtain t1 h1 where p: "run_inserts pre (tbl, h) = (t1, h1)"
    by (cases "run_inserts pre (tbl, h)")
  obtain t2 h2 where s: "insert_word (Some w) d (t1, h1) = (t2, h2)"
    by (cases "insert_word (Some w) d (t1, h1)")
  from assms(2) p s have "allocs_ok h1 (snd (insert_word (Some w) d (t1, h1)))"
    by simp
  from insert_word_allocs_ok [OF assms(1) this] s have "d \<in> set (docs t2 w)"
    by (auto simp add: docs_def)
  from run_inserts_keep [OF this, of post h2] p s show ?thesis
    by (simp add: run_inserts_append)
qed

text \<open>
  C1 (amended). Starting from the empty table, take any run of inserts that has a call
  \<open>insert(w, d)\<close> with \<open>w\<close> not empty whose own allocations succeed, whatever the other
  inserts before and after it are and whether or not their allocations succeed: then
  \<open>find(w)\<close> returns the entry of \<open>w\<close> and \<open>d\<close> occurs exactly once in its document list.
  So it is, in particular, when every allocation of the run succeeds. Whatever the word
  and the allocator do, \<open>d\<close> never occurs twice.
\<close>

theorem insert_then_find_once:
  "(w \<noteq> [] \<and> allocs_ok (snd (run_inserts pre (empty_table, h)))
                        (snd (insert_word (Some w) d (run_inserts pre (empty_table, h)))) \<longrightarrow>
      (\<exists>e. find_word_entry (fst (run_inserts (pre @ (w, d) # post) (empty_table, h))) w = Some e
         \<and> entry_word e = w \<and> count_list (entry_files e) d = 1))
   \<and> (w \<noteq> [] \<and> (w, d) \<in> set ops \<and> False \<notin> set h \<longrightarrow>
      (\<exists>e. find_word_entry (fst (run_inserts ops (empty_table, h))) w = Some e
         \<and> entry_word e = w \<and> count_list (entry_files e) d = 1))
   \<and> (\<forall>e. find_word_entry (fst (run_inserts ops (empty_table, h))) w = Some e \<longrightarrow>
         entry_word e = w \<and> count_list (entry_files e) d \<le> 1)"
proof -
  have dist: "distinct (docs (fst (run_inserts xs (empty_table, h))) w)" for xs
    by (rule run_inserts_distinct) (simp add: docs_empty_table)
  have word: "entry_word e = w" if "find_word_entry t w = Some e" for e t
    using that by (auto simp add: find_word_entry_def dest: find_chain_word)
  have most: "count_list (entry_files e) d \<le> 1"
    if "find_word_entry (fst (run_inserts ops (empty_table, h))) w = Some e" for e
    using that dist [of ops] by (simp add: docs_def count_list_distinct)
  have once: "\<exists>e. find_word_entry (fst (run_inserts xs (empty_table, h))) w = Some e
      \<and> entry_word e = w \<and> count_list (entry_files e) d = 1"
    if m: "d \<in> set (docs (fst (run_inserts xs (empty_table, h))) w)" for xs
  proof -
    let ?t = "fst (run_inserts xs (empty_table, h))"
    from m obtain e where e: "find_word_entry ?t w = Some e" "d \<in> set (entry_files e)"
      by (cases "find_word_entry ?t w") (auto simp add: docs_def)
    with dist [of xs] have "count_list (entry_files e) d = 1"
      by (simp add: docs_def count_list_distinct)
    with e(1) word [OF e(1)] show ?thesis by simp
  qed
  have loc: "\<exists>e. find_word_entry (fst (run_inserts (pre @ (w, d) # post) (empty_table, h))) w = Some e
         \<and> entry_word e = w \<and> count_list (entry_files e) d = 1"
    if "w \<noteq> []" "allocs_ok (snd (run_inserts pre (empty_table, h)))
                        (snd (insert_word (Some w) d (run_inserts pre (empty_table, h))))"
    by (rule once) (rule run_inserts_allocs_ok [OF that])
  have glob: "\<exists>e. find_word_entry (fst (run_inserts ops (empty_table, h))) w = Some e
         \<and> entry_word e = w \<and> count_list (entry_files e) d = 1"
    if "w \<noteq> []" "(w, d) \<in> set ops" "False \<notin> set h"
    by (rule once) (rule run_inserts_records [OF that])
  from loc glob word most show ?thesis
    by blast
qed

theorem insert_then_find_once_witness:
  "''apple'' \<noteq> []
   \<and> allocs_ok (snd (run_inserts [(''pear'', ''doc2.txt'')] (empty_table, [False])))
        (snd (insert_word (Some ''apple'') ''doc1.txt''
               (run_inserts [(''pear'', ''doc2.txt'')] (empty_table, [False]))))
   \<and> find_word_entry (fst (run_inserts [(''pear'', ''doc2.txt'')] (empty_table, [False]))) ''pear'' = None
   \<and> (\<exists>e. find_word_entry
              (fst (run_inserts ([(''pear'', ''doc2.txt'')] @ (''apple'', ''doc1.txt'') # [(''apple'', ''doc1.txt'')])
                     (empty_table, [False]))) ''apple'' = Some e
         \<and> entry_word e = ''apple'' \<and> count_list (entry_files e) ''doc1.txt'' = 1)
   \<and> (''apple'', ''doc1.txt'') \<in> set three_inserts \<and> False \<notin> set []
   \<and> find_word_entry (fst (run_inserts three_inserts (empty_table, []))) ''apple''
       = Some \<lparr>entry_word = ''apple'', entry_files = [''doc1.txt'']\<rparr>
   \<and> (\<exists>e. find_word_entry (fst (run_inserts three_inserts (empty_table, []))) ''apple'' = Some e
         \<and> entry_word e = ''apple'' \<and> count_list (entry_files e) ''doc1.txt'' = 1)"
proof -
  have a: "allocs_ok (snd (run_inserts [(''pear'', ''doc2.txt'')] (empty_table, [False])))
        (snd (insert_word (Some ''apple'') ''doc1.txt''
               (run_inserts [(''pear'', ''doc2.txt'')] (empty_table, [False]))))"
    by code_simp
  have p: "find_word_entry (fst (run_inserts [(''pear'', ''doc2.txt'')] (empty_table, [False]))) ''pear'' = None"
    by code_simp
  have m: "(''apple'', ''doc1.txt'') \<in> set three_inserts"
    by (simp add: three_inserts_def)
  have v: "find_word_entry (fst (run_inserts three_inserts (empty_table, []))) ''apple''
       = Some \<lparr>entry_word = ''apple'', entry_files = [''doc1.txt'']\<rparr>"
    by code_simp
  note t = insert_then_find_once [of "''apple''" "[(''pear'', ''doc2.txt'')]" "[False]" "''doc1.txt''"
      "[(''apple'', ''doc1.txt'')]" three_inserts]
  note u = insert_then_find_once [of "''apple''" "[]" "[]" "''doc1.txt''" "[]" three_inserts]
  from a t have first: "\<exists>e. find_word_entry
              (fst (run_inserts ([(''pear'', ''doc2.txt'')] @ (''apple'', ''doc1.txt'') # [(''apple'', ''doc1.txt'')])
                     (empty_table, [False]))) ''apple'' = Some e
         \<and> entry_word e = ''apple'' \<and> count_list (entry_files e) ''doc1.txt'' = 1"
    by simp
  from m u have second: "\<exists>e. find_word_entry (fst (run_inserts three_inserts (empty_table, []))) ''apple'' = Some e
         \<and> entry_word e = ''apple'' \<and> count_list (entry_files e) ''doc1.txt'' = 1"
    by simp
  from a p m v first second show ?thesis
    by (intro conjI) simp_all
qed

text \<open>
  The empty word is never recorded; nor is a word whose entry could not be allocated,
  and a document whose node could not be allocated leaves an entry with no document.
\<close>

theorem insert_then_find_counterexample:
  "find_word_entry (fst (run_inserts [([], ''doc1.txt'')] (empty_table, []))) [] = None
   \<and> find_word_entry (fst (run_inserts [(''apple'', ''doc1.txt'')] (empty_table, [False]))) ''apple'' = None
   \<and> find_word_entry (fst (run_inserts [(''apple'', ''doc1.txt'')] (empty_table, [True, True, False]))) ''apple''
       = Some \<lparr>entry_word = ''apple'', entry_files = []\<rparr>"
  by code_simp

text \<open>\<open>index_file\<close> inserts the tokens of the file, in order, under the display name.\<close>

lemma index_scan_inserts:
  "index_scan cs buf d st = run_inserts (map (\<lambda>w. (w, d)) (scan_tokens cs buf)) st"
proof (induction cs buf d st rule: index_scan.induct)
  case (1 ch rest buf displayname st)
  then show ?case
    by (cases "isalnum ch"; cases "length buf < 255"; cases "buf = []"; simp del: insert_word.simps)
next
  case (2 buf displayname st)
  then show ?case by (simp del: insert_word.simps)
qed

subsection \<open>The cache: the array loops and the slots in use\<close>

lemma shift_slots_apply:
  "shift_slots j s k = (if 0 < k \<and> k \<le> j then s (k - 1) else s k)"
proof (induction j arbitrary: s k)
  case 0
  show ?case by simp
next
  case (Suc j)
  show ?case by (auto simp add: Suc.IH le_Suc_eq)
qed

lemma map_shift_front:
  "j < n \<Longrightarrow> map ((shift_slots j s)(0 := x)) [0..<n]
     = x # take j (map s [0..<n]) @ drop (Suc j) (map s [0..<n])"
  by (rule nth_equalityI) (auto simp add: shift_slots_apply nth_append nth_Cons' min_def)

lemma map_shift_push:
  "map ((shift_slots l s)(0 := x)) [0..<Suc l] = x # map s [0..<l]"
  by (rule nth_equalityI) (auto simp add: shift_slots_apply nth_Cons' simp del: upt_Suc)

lemma slot_updates:
  "(r\<lparr>slot_word := a\<rparr>)\<lparr>slot_files := b\<rparr> = \<lparr>slot_word = a, slot_files = b\<rparr>"
  by (cases r) simp

lemma cache_index_from_miss:
  "\<forall>i<cache_count c. slot_word (cache_slots c i) \<noteq> None \<Longrightarrow>
   \<forall>i. k \<le> i \<and> i < cache_count c \<longrightarrow> slot_word (cache_slots c i) \<noteq> Some w \<Longrightarrow>
   cache_index_from c w k = Inr (- 1)"
proof (induction c w k rule: cache_index_from.induct)
  case (1 c w i)
  show ?case
  proof (cases "i < cache_count c")
    case False
    then show ?thesis by (simp add: cache_index_from.simps [of c w i])
  next
    case True
    with "1.prems" obtain v where v: "slot_word (cache_slots c i) = Some v" "v \<noteq> w"
      by (metis le_refl option.exhaust)
    from "1.prems" have "\<forall>j. Suc i \<le> j \<and> j < cache_count c \<longrightarrow> slot_word (cache_slots c j) \<noteq> Some w"
      by simp
    with "1.IH" [OF True v] "1.prems"(1) have "cache_index_from c w (Suc i) = Inr (- 1)"
      by simp
    with True v show ?thesis
      by (simp add: cache_index_from.simps [of c w i])
  qed
qed

lemma cache_index_from_hit:
  "\<forall>i<cache_count c. slot_word (cache_slots c i) \<noteq> None \<Longrightarrow>
   k \<le> j \<Longrightarrow> j < cache_count c \<Longrightarrow> slot_word (cache_slots c j) = Some w \<Longrightarrow>
   \<forall>i. k \<le> i \<and> i < j \<longrightarrow> slot_word (cache_slots c i) \<noteq> Some w \<Longrightarrow>
   cache_index_from c w k = Inr (int j)"
proof (induction c w k rule: cache_index_from.induct)
  case (1 c w i)
  from "1.prems" have lt: "i < cache_count c" by simp
  show ?case
  proof (cases "i = j")
    case True
    with "1.prems" lt show ?thesis
      by (simp add: cache_index_from.simps [of c w j])
  next
    case False
    with "1.prems" have ij: "i < j" by simp
    with "1.prems" lt obtain v where v: "slot_word (cache_slots c i) = Some v" "v \<noteq> w"
      by (metis le_refl option.exhaust)
    from "1.prems" ij have "\<forall>m. Suc i \<le> m \<and> m < j \<longrightarrow> slot_word (cache_slots c m) \<noteq> Some w"
      by simp
    with "1.IH" [OF lt v] "1.prems" ij have "cache_index_from c w (Suc i) = Inr (int j)"
      by simp
    with lt v show ?thesis
      by (simp add: cache_index_from.simps [of c w i])
  qed
qed

lemma length_occupied [simp]: "length (occupied c) = cache_count c"
  by (simp add: occupied_def)

lemma nth_occupied [simp]: "i < cache_count c \<Longrightarrow> occupied c ! i = cache_slots c i"
  by (simp add: occupied_def)

lemma cached_iff: "cached c w \<longleftrightarrow> (\<exists>j<cache_count c. slot_word (cache_slots c j) = Some w)"
proof
  assume "cached c w"
  then obtain s where "s \<in> set (occupied c)" "slot_word s = Some w"
    by (auto simp add: cached_def)
  then show "\<exists>j<cache_count c. slot_word (cache_slots c j) = Some w"
    by (auto simp add: in_set_conv_nth)
next
  assume "\<exists>j<cache_count c. slot_word (cache_slots c j) = Some w"
  then obtain j where j: "j < cache_count c" "slot_word (cache_slots c j) = Some w"
    by blast
  then have "occupied c ! j \<in> set (occupied c)"
    by (simp del: nth_occupied)
  with j show "cached c w"
    by (force simp add: cached_def)
qed

lemma inv_count: "cache_inv c \<Longrightarrow> cache_count c \<le> CACHE_CAP"
  by (simp add: cache_inv_def)

lemma inv_slot:
  "cache_inv c \<Longrightarrow> i < cache_count c \<Longrightarrow>
   slot_word (cache_slots c i) \<noteq> None \<and> slot_files (cache_slots c i) \<noteq> []"
proof -
  assume a: "cache_inv c" "i < cache_count c"
  then have "occupied c ! i \<in> set (occupied c)"
    by (simp del: nth_occupied)
  with a show ?thesis
    by (auto simp add: cache_inv_def list_all_iff)
qed

lemma inv_no_null:
  "cache_inv c \<Longrightarrow> \<forall>i<cache_count c. slot_word (cache_slots c i) \<noteq> None"
  using inv_slot by blast

lemma inv_unique:
  "cache_inv c \<Longrightarrow> i < cache_count c \<Longrightarrow> j < cache_count c \<Longrightarrow>
   slot_word (cache_slots c i) = slot_word (cache_slots c j) \<Longrightarrow> i = j"
proof -
  assume a: "cache_inv c" "i < cache_count c" "j < cache_count c"
    and e: "slot_word (cache_slots c i) = slot_word (cache_slots c j)"
  from a have d: "distinct (map slot_word (occupied c))"
    by (simp add: cache_inv_def)
  from d a have "(map slot_word (occupied c) ! i = map slot_word (occupied c) ! j) = (i = j)"
    by (intro nth_eq_iff_index_eq) simp_all
  with a e show "i = j"
    by simp
qed

lemma cache_index_of_miss:
  "cache_inv c \<Longrightarrow> \<not> cached c w \<Longrightarrow> cache_index_of c w = Inr (- 1)"
  unfolding cache_index_of_def
  by (rule cache_index_from_miss) (auto simp add: inv_no_null cached_iff)

lemma cache_index_of_hit:
  "cache_inv c \<Longrightarrow> j < cache_count c \<Longrightarrow> slot_word (cache_slots c j) = Some w \<Longrightarrow>
   cache_index_of c w = Inr (int j)"
proof -
  assume a: "cache_inv c" "j < cache_count c" "slot_word (cache_slots c j) = Some w"
  have "\<forall>i. 0 \<le> i \<and> i < j \<longrightarrow> slot_word (cache_slots c i) \<noteq> Some w"
  proof (intro allI impI)
    fix i assume "0 \<le> i \<and> i < j"
    with a inv_unique [of c i j] show "slot_word (cache_slots c i) \<noteq> Some w"
      by auto
  qed
  with a show ?thesis
    unfolding cache_index_of_def
    by (intro cache_index_from_hit) (simp_all add: inv_no_null)
qed

lemma cache_get_miss:
  "cache_inv c \<Longrightarrow> \<not> cached c w \<Longrightarrow> cache_get w c = Inr ([], c)"
  by (simp add: cache_get_def cache_index_of_miss)

lemma cache_get_hit:
  "cache_inv c \<Longrightarrow> j < cache_count c \<Longrightarrow> slot_word (cache_slots c j) = Some w \<Longrightarrow>
   cache_get w c = Inr (slot_files (cache_slots c j),
     c\<lparr>cache_slots := (shift_slots j (cache_slots c))(0 := cache_slots c j)\<rparr>)"
  by (simp add: cache_get_def cache_index_of_hit Let_def)

lemma occupied_front:
  "j < cache_count c \<Longrightarrow>
   occupied (c\<lparr>cache_slots := (shift_slots j (cache_slots c))(0 := x)\<rparr>)
     = x # take j (occupied c) @ drop (Suc j) (occupied c)"
  by (simp add: occupied_def map_shift_front)

lemma front_list_all:
  "list_all P xs \<Longrightarrow> P x \<Longrightarrow> list_all P (x # take j xs @ drop (Suc j) xs)"
  by (auto simp add: list_all_iff dest: in_set_takeD in_set_dropD)

lemma front_distinct:
  assumes "distinct (map f xs)" "j < length xs" "f x = f (xs ! j)"
  shows "distinct (map f (x # take j xs @ drop (Suc j) xs))"
proof -
  have "xs = take j xs @ xs ! j # drop (Suc j) xs"
    using assms(2) by (rule id_take_nth_drop)
  then have "distinct (map f (take j xs @ xs ! j # drop (Suc j) xs))"
    using assms(1) by simp
  with assms(3) show ?thesis
    by auto
qed

lemma front_inv:
  assumes "cache_inv c" "j < cache_count c"
    "slot_word x = slot_word (cache_slots c j)" "slot_files x \<noteq> []"
  shows "cache_inv (c\<lparr>cache_slots := (shift_slots j (cache_slots c))(0 := x)\<rparr>)"
proof -
  let ?c = "c\<lparr>cache_slots := (shift_slots j (cache_slots c))(0 := x)\<rparr>"
  have o: "occupied ?c = x # take j (occupied c) @ drop (Suc j) (occupied c)"
    using assms(2) by (rule occupied_front)
  from assms inv_slot [of c j] have px: "slot_word x \<noteq> None \<and> slot_files x \<noteq> []"
    by simp
  from assms(1) have "list_all (\<lambda>s. slot_word s \<noteq> None \<and> slot_files s \<noteq> []) (occupied c)"
    by (simp add: cache_inv_def)
  with px have la: "list_all (\<lambda>s. slot_word s \<noteq> None \<and> slot_files s \<noteq> []) (occupied ?c)"
    unfolding o by (intro front_list_all) simp_all
  from assms have "distinct (map slot_word (x # take j (occupied c) @ drop (Suc j) (occupied c)))"
    by (intro front_distinct) (simp_all add: cache_inv_def)
  with la o assms(1) show ?thesis
    by (simp add: cache_inv_def)
qed

lemma cache_get_inv:
  assumes "cache_inv c"
  shows "\<exists>fs c'. cache_get w c = Inr (fs, c') \<and> cache_inv c' \<and> cache_count c' = cache_count c"
proof (cases "cached c w")
  case False
  with assms show ?thesis by (simp add: cache_get_miss)
next
  case True
  then obtain j where j: "j < cache_count c" "slot_word (cache_slots c j) = Some w"
    by (auto simp add: cached_iff)
  from assms j inv_slot [of c j] have "cache_inv (c\<lparr>cache_slots := (shift_slots j (cache_slots c))(0 := cache_slots c j)\<rparr>)"
    by (intro front_inv) simp_all
  with assms j show ?thesis
    by (simp add: cache_get_hit)
qed

lemma cache_put_null:
  "cache_put None fs c = Inr c" "cache_put wp [] c = Inr c"
  by (simp_all add: cache_put_def split: option.split)

lemma refresh_inv:
  assumes "cache_inv c" "j < cache_count c" "fs \<noteq> []"
  shows "cache_inv (c\<lparr>cache_slots := (cache_slots c)(j := (cache_slots c j)\<lparr>slot_files := fs\<rparr>)\<rparr>)"
proof -
  let ?x = "(cache_slots c j)\<lparr>slot_files := fs\<rparr>"
  let ?c = "c\<lparr>cache_slots := (cache_slots c)(j := ?x)\<rparr>"
  have o: "occupied ?c = (occupied c)[j := ?x]"
    by (rule nth_equalityI) (simp_all add: occupied_def)
  from assms inv_slot [of c j] have px: "slot_word ?x \<noteq> None \<and> slot_files ?x \<noteq> []"
    by simp
  from assms(1) have "list_all (\<lambda>s. slot_word s \<noteq> None \<and> slot_files s \<noteq> []) (occupied c)"
    by (simp add: cache_inv_def)
  with px have la: "list_all (\<lambda>s. slot_word s \<noteq> None \<and> slot_files s \<noteq> []) (occupied ?c)"
    unfolding o list_all_iff by (auto dest: set_update_subset_insert [THEN subsetD])
  have "map slot_word ((occupied c)[j := ?x]) = map slot_word (occupied c)"
    using assms(2) by (intro nth_equalityI) (simp_all add: nth_list_update)
  with assms(1) o la show ?thesis
    by (simp add: cache_inv_def)
qed

lemma cache_put_hit:
  assumes "cache_inv c" "j < cache_count c" "slot_word (cache_slots c j) = Some w" "fs \<noteq> []"
  shows "cache_put (Some w) fs c =
    Inr (c\<lparr>cache_slots := (shift_slots j ((cache_slots c)(j := (cache_slots c j)\<lparr>slot_files := fs\<rparr>)))
                           (0 := (cache_slots c j)\<lparr>slot_files := fs\<rparr>)\<rparr>)"
  using assms by (simp add: cache_put_def cache_index_of_hit Let_def)

lemma cache_put_hit_inv:
  assumes "cache_inv c" "j < cache_count c" "slot_word (cache_slots c j) = Some w" "fs \<noteq> []"
  shows "\<exists>c'. cache_put (Some w) fs c = Inr c' \<and> cache_inv c' \<and> cache_count c' = cache_count c
           \<and> occupied c' = (cache_slots c j)\<lparr>slot_files := fs\<rparr> # take j (occupied c) @ drop (Suc j) (occupied c)"
proof -
  let ?x = "(cache_slots c j)\<lparr>slot_files := fs\<rparr>"
  let ?c0 = "c\<lparr>cache_slots := (cache_slots c)(j := ?x)\<rparr>"
  let ?c' = "?c0\<lparr>cache_slots := (shift_slots j (cache_slots ?c0))(0 := ?x)\<rparr>"
  have i0: "cache_inv ?c0"
    using assms by (intro refresh_inv)
  have i1: "cache_inv ?c'"
    using i0 assms by (intro front_inv) simp_all
  have "occupied ?c' = ?x # take j (occupied ?c0) @ drop (Suc j) (occupied ?c0)"
    using assms(2) by (intro occupied_front) simp
  moreover have "take j (occupied ?c0) = take j (occupied c)"
    by (rule nth_equalityI) (simp_all add: occupied_def)
  moreover have "drop (Suc j) (occupied ?c0) = drop (Suc j) (occupied c)"
    by (rule nth_equalityI) (simp_all add: occupied_def)
  ultimately have o: "occupied ?c' = ?x # take j (occupied c) @ drop (Suc j) (occupied c)"
    by simp
  have "cache_put (Some w) fs c = Inr ?c'"
    using assms by (simp add: cache_put_hit)
  with i1 o show ?thesis
    by simp
qed

lemma cache_put_miss:
  assumes "cache_inv c" "\<not> cached c w" "fs \<noteq> []"
  shows "\<exists>c'. cache_put (Some w) fs c = Inr c' \<and> cache_inv c'
           \<and> cache_count c' = min (Suc (cache_count c)) CACHE_CAP
           \<and> occupied c' = \<lparr>slot_word = Some w, slot_files = fs\<rparr> # take (CACHE_CAP - 1) (occupied c)"
proof -
  let ?n = "cache_count c"
  let ?l = "if ?n < CACHE_CAP then ?n else CACHE_CAP - 1"
  let ?x = "\<lparr>slot_word = Some w, slot_files = fs\<rparr>"
  let ?c' = "c\<lparr>cache_slots := (shift_slots ?l (cache_slots c))(0 := ?x),
               cache_count := (if ?n < CACHE_CAP then ?n + 1 else ?n)\<rparr>"
  from assms(1) have n: "?n \<le> CACHE_CAP" by (rule inv_count)
  have p: "cache_put (Some w) fs c = Inr ?c'"
    using assms by (simp add: cache_put_def cache_index_of_miss Let_def slot_updates)
  from n have cnt: "cache_count ?c' = Suc ?l"
    by (auto simp add: CACHE_CAP_def)
  have "occupied ?c' = map ((shift_slots ?l (cache_slots c))(0 := ?x)) [0..<Suc ?l]"
    unfolding occupied_def cnt by simp
  also have "\<dots> = ?x # map (cache_slots c) [0..<?l]"
    by (rule map_shift_push)
  also have "map (cache_slots c) [0..<?l] = take (CACHE_CAP - 1) (occupied c)"
    using n by (intro nth_equalityI) (auto simp add: occupied_def CACHE_CAP_def split: if_splits)
  finally have o: "occupied ?c' = ?x # take (CACHE_CAP - 1) (occupied c)" .
  from assms(1) have "list_all (\<lambda>s. slot_word s \<noteq> None \<and> slot_files s \<noteq> []) (occupied c)"
    by (simp add: cache_inv_def)
  then have la: "list_all (\<lambda>s. slot_word s \<noteq> None \<and> slot_files s \<noteq> []) (take (CACHE_CAP - 1) (occupied c))"
    by (auto simp add: list_all_iff dest: in_set_takeD)
  from assms(1) have "distinct (map slot_word (occupied c))"
    by (simp add: cache_inv_def)
  then have d: "distinct (map slot_word (take (CACHE_CAP - 1) (occupied c)))"
    by (simp add: take_map [symmetric])
  from assms(2) have "Some w \<notin> set (map slot_word (take (CACHE_CAP - 1) (occupied c)))"
    by (auto simp add: cached_def dest: in_set_takeD)
  with la d o assms(3) n have "cache_inv ?c'"
    by (auto simp add: cache_inv_def CACHE_CAP_def)
  moreover from n have "cache_count ?c' = min (Suc ?n) CACHE_CAP"
    by (auto simp add: CACHE_CAP_def)
  ultimately show ?thesis
    using p o by blast
qed

lemma cache_put_inv:
  assumes "cache_inv c"
  shows "\<exists>c'. cache_put wp fs c = Inr c' \<and> cache_inv c'"
proof (cases "wp = None \<or> fs = []")
  case True
  with assms show ?thesis
    by (auto simp add: cache_put_null)
next
  case False
  then obtain w where w: "wp = Some w" "fs \<noteq> []" by auto
  show ?thesis
  proof (cases "cached c w")
    case True
    then obtain j where "j < cache_count c" "slot_word (cache_slots c j) = Some w"
      by (auto simp add: cached_iff)
    with assms w cache_put_hit_inv [of c j w fs] show ?thesis by blast
  next
    case False
    with assms w cache_put_miss [of c w fs] show ?thesis by blast
  qed
qed

lemma init_cache_inv: "cache_inv init_cache"
  by (simp add: cache_inv_def init_cache_def occupied_def)

lemma apply_op_inv:
  "cache_inv c \<Longrightarrow> \<exists>c'. apply_op x c = Inr c' \<and> cache_inv c'"
proof (cases x)
  case (Get w)
  assume "cache_inv c"
  with cache_get_inv [of c w] Get show ?thesis by auto
next
  case (Put wp fs)
  assume "cache_inv c"
  with cache_put_inv [of c wp fs] Put show ?thesis by auto
qed

lemma run_ops_inv:
  "cache_inv c \<Longrightarrow> \<exists>c'. run_ops ops c = Inr c' \<and> cache_inv c'"
proof (induction ops arbitrary: c)
  case Nil
  then show ?case by simp
next
  case (Cons x ops)
  from apply_op_inv [OF Cons.prems, of x] obtain c1 where c1: "apply_op x c = Inr c1" "cache_inv c1"
    by blast
  from Cons.IH [OF c1(2)] c1(1) show ?case by simp
qed

subsection \<open>The cache: capacity, recency, null slots\<close>

lemma cached_front:
  assumes "j < cache_count c" "slot_word x = slot_word (cache_slots c j)"
  shows "cached (c\<lparr>cache_slots := (shift_slots j (cache_slots c))(0 := x)\<rparr>) v = cached c v"
proof -
  let ?xs = "occupied c"
  have split: "?xs = take j ?xs @ ?xs ! j # drop (Suc j) ?xs"
    using assms(1) by (intro id_take_nth_drop) simp
  have "set (map slot_word (x # take j ?xs @ drop (Suc j) ?xs))
      = set (map slot_word (take j ?xs @ ?xs ! j # drop (Suc j) ?xs))"
    using assms by simp
  also have "\<dots> = set (map slot_word ?xs)"
    using split by simp
  finally show ?thesis
    using assms(1) by (simp add: cached_def occupied_front)
qed

lemma run_ops_snoc:
  "run_ops (xs @ [x]) c = (case run_ops xs c of Inl e \<Rightarrow> Inl e | Inr c' \<Rightarrow> apply_op x c')"
  by (induction xs arbitrary: c) (auto split: sum.splits)

lemma last_use_snoc:
  "last_use (xs @ [x]) w = (if touches x w then Suc (length xs) else last_use xs w)"
  by (simp add: last_use_def)

lemma last_use_le: "last_use xs w \<le> length xs"
  unfolding last_use_def using length_dropWhile_le [of "\<lambda>x. \<not> touches x w" "rev xs"] by simp

lemma use_time_le: "use_time xs s \<le> length xs"
  by (simp add: use_time_def last_use_le split: option.splits)

lemma use_time_snoc:
  "use_time (xs @ [x]) s =
     (case slot_word s of None \<Rightarrow> 0
      | Some w \<Rightarrow> if touches x w then Suc (length xs) else use_time xs s)"
  by (simp add: use_time_def last_use_snoc split: option.splits)

lemma by_recency_same:
  assumes "by_recency xs ss" "\<forall>s\<in>set ss. use_time (xs @ [x]) s = use_time xs s"
  shows "by_recency (xs @ [x]) ss"
proof -
  from assms(1) have "sorted_wrt (\<lambda>a b. use_time xs b < use_time xs a) ss"
    by (simp add: by_recency_def)
  then have "sorted_wrt (\<lambda>a b. use_time (xs @ [x]) b < use_time (xs @ [x]) a) ss"
    by (rule sorted_wrt_mono_rel [rotated]) (simp add: assms(2))
  with assms show ?thesis
    by (simp add: by_recency_def list_all_iff)
qed

lemma by_recency_front:
  assumes "by_recency xs ss" "\<forall>s\<in>set ss. use_time (xs @ [x]) s = use_time xs s"
    "use_time (xs @ [x]) a = Suc (length xs)"
  shows "by_recency (xs @ [x]) (a # ss)"
proof -
  from by_recency_same [OF assms(1,2)] have r: "by_recency (xs @ [x]) ss" .
  have "use_time (xs @ [x]) s < use_time (xs @ [x]) a" if "s \<in> set ss" for s
    using that assms(2,3) use_time_le [of xs s] by simp
  with r assms(3) show ?thesis
    by (simp add: by_recency_def)
qed

lemma by_recency_without:
  assumes "by_recency xs ss"
  shows "by_recency xs (take j ss @ drop (Suc j) ss)" "by_recency xs (take n ss)"
proof -
  let ?P = "\<lambda>a b. use_time xs b < use_time xs a"
  from assms have s: "sorted_wrt ?P ss" and p: "list_all (\<lambda>s. 0 < use_time xs s) ss"
    by (simp_all add: by_recency_def)
  have "sorted_wrt ?P (take j ss @ drop j ss) =
      (sorted_wrt ?P (take j ss) \<and> sorted_wrt ?P (drop j ss)
       \<and> (\<forall>a\<in>set (take j ss). \<forall>b\<in>set (drop j ss). ?P a b))"
    by (rule sorted_wrt_append)
  with s have cross: "\<forall>a\<in>set (take j ss). \<forall>b\<in>set (drop j ss). ?P a b"
    by simp
  have "set (drop (Suc j) ss) \<subseteq> set (drop j ss)"
    by (rule set_drop_subset_set_drop) simp
  with cross have "\<forall>a\<in>set (take j ss). \<forall>b\<in>set (drop (Suc j) ss). ?P a b"
    by blast
  with s have "sorted_wrt ?P (take j ss @ drop (Suc j) ss)"
    by (simp add: sorted_wrt_append sorted_wrt_take sorted_wrt_drop)
  moreover from p have "list_all (\<lambda>s. 0 < use_time xs s) (take j ss @ drop (Suc j) ss)"
    by (auto simp add: list_all_iff dest: in_set_takeD in_set_dropD)
  ultimately show "by_recency xs (take j ss @ drop (Suc j) ss)"
    by (simp add: by_recency_def)
  from s p show "by_recency xs (take n ss)"
    by (auto simp add: by_recency_def sorted_wrt_take list_all_iff dest: in_set_takeD)
qed

lemma others_differ:
  assumes "distinct (map f ss)" "j < length ss" "s \<in> set (take j ss @ drop (Suc j) ss)"
  shows "f s \<noteq> f (ss ! j)"
proof -
  have "ss = take j ss @ ss ! j # drop (Suc j) ss"
    using assms(2) by (rule id_take_nth_drop)
  then have "distinct (map f (take j ss @ ss ! j # drop (Suc j) ss))"
    using assms(1) by simp
  then have "f (ss ! j) \<notin> f ` set (take j ss)" "f (ss ! j) \<notin> f ` set (drop (Suc j) ss)"
    by auto
  with assms(3) show ?thesis
    by (metis Un_iff image_eqI set_append)
qed

lemma use_time_keep:
  "\<forall>v. touches x v \<longrightarrow> slot_word s \<noteq> Some v \<Longrightarrow> use_time (xs @ [x]) s = use_time xs s"
  by (cases "slot_word s") (auto simp add: use_time_def last_use_snoc)

lemma use_time_now:
  "slot_word s = Some w \<Longrightarrow> touches x w \<Longrightarrow> use_time (xs @ [x]) s = Suc (length xs)"
  by (simp add: use_time_snoc)

lemma uncached_slots:
  "\<not> cached c w \<Longrightarrow> s \<in> set (occupied c) \<Longrightarrow> slot_word s \<noteq> Some w"
  unfolding cached_def set_map by (metis image_eqI)

lemma recency_moved:
  assumes "cache_inv c" "by_recency xs (occupied c)" "j < cache_count c"
    "slot_word (cache_slots c j) = Some w" "slot_word a = Some w"
    "touches x w" "\<forall>v. touches x v \<longrightarrow> v = w"
  shows "by_recency (xs @ [x]) (a # take j (occupied c) @ drop (Suc j) (occupied c))"
proof (rule by_recency_front)
  show "by_recency xs (take j (occupied c) @ drop (Suc j) (occupied c))"
    using assms(2) by (rule by_recency_without)
  show "use_time (xs @ [x]) a = Suc (length xs)"
    using assms(5,6) by (rule use_time_now)
  show "\<forall>s\<in>set (take j (occupied c) @ drop (Suc j) (occupied c)). use_time (xs @ [x]) s = use_time xs s"
  proof
    fix s assume s: "s \<in> set (take j (occupied c) @ drop (Suc j) (occupied c))"
    from assms(1) have "distinct (map slot_word (occupied c))"
      by (simp add: cache_inv_def)
    from others_differ [OF this _ s] assms(3,4) have "slot_word s \<noteq> Some w"
      by simp
    with assms(7) show "use_time (xs @ [x]) s = use_time xs s"
      by (intro use_time_keep) auto
  qed
qed

lemma recency_pushed:
  assumes "by_recency xs (occupied c)" "\<not> cached c w" "slot_word a = Some w"
    "touches x w" "\<forall>v. touches x v \<longrightarrow> v = w"
  shows "by_recency (xs @ [x]) (a # take n (occupied c))"
proof (rule by_recency_front)
  show "by_recency xs (take n (occupied c))"
    using assms(1) by (rule by_recency_without)
  show "use_time (xs @ [x]) a = Suc (length xs)"
    using assms(3,4) by (rule use_time_now)
  show "\<forall>s\<in>set (take n (occupied c)). use_time (xs @ [x]) s = use_time xs s"
  proof
    fix s assume "s \<in> set (take n (occupied c))"
    then have "s \<in> set (occupied c)" by (rule in_set_takeD)
    with assms(2) have "slot_word s \<noteq> Some w" by (rule uncached_slots)
    with assms(5) show "use_time (xs @ [x]) s = use_time xs s"
      by (intro use_time_keep) auto
  qed
qed

lemma recency_untouched:
  assumes "by_recency xs (occupied c)" "\<forall>v. touches x v \<longrightarrow> \<not> cached c v"
  shows "by_recency (xs @ [x]) (occupied c)"
proof (rule by_recency_same [OF assms(1)])
  show "\<forall>s\<in>set (occupied c). use_time (xs @ [x]) s = use_time xs s"
  proof
    fix s assume "s \<in> set (occupied c)"
    with assms(2) have "\<forall>v. touches x v \<longrightarrow> slot_word s \<noteq> Some v"
      by (auto dest: uncached_slots)
    then show "use_time (xs @ [x]) s = use_time xs s"
      by (rule use_time_keep)
  qed
qed

lemma apply_op_recency:
  assumes "cache_inv c" "by_recency xs (occupied c)" "apply_op x c = Inr c'"
  shows "by_recency (xs @ [x]) (occupied c')"
proof (cases x)
  case (Get w)
  show ?thesis
  proof (cases "cached c w")
    case False
    with assms(1,3) Get have "c' = c"
      by (simp add: cache_get_miss)
    moreover from False Get have "\<forall>v. touches x v \<longrightarrow> \<not> cached c v"
      by simp
    ultimately show ?thesis
      using recency_untouched [OF assms(2)] by simp
  next
    case True
    then obtain j where j: "j < cache_count c" "slot_word (cache_slots c j) = Some w"
      by (auto simp add: cached_iff)
    from assms(3) Get cache_get_hit [OF assms(1) j]
    have "c' = c\<lparr>cache_slots := (shift_slots j (cache_slots c))(0 := cache_slots c j)\<rparr>"
      by simp
    with j(1) have o: "occupied c' = cache_slots c j # take j (occupied c) @ drop (Suc j) (occupied c)"
      by (simp add: occupied_front)
    from Get have t: "touches x w" "\<forall>v. touches x v \<longrightarrow> v = w"
      by simp_all
    show ?thesis
      unfolding o by (rule recency_moved [OF assms(1,2) j j(2) t])
  qed
next
  case (Put wp fs)
  show ?thesis
  proof (cases "wp = None \<or> fs = []")
    case True
    with assms(3) Put have "c' = c"
      by (auto simp add: cache_put_null)
    moreover from True Put have "\<forall>v. touches x v \<longrightarrow> \<not> cached c v"
      by auto
    ultimately show ?thesis
      using recency_untouched [OF assms(2)] by simp
  next
    case False
    then obtain w where w: "wp = Some w" "fs \<noteq> []" by auto
    with Put have t: "touches x w" "\<forall>v. touches x v \<longrightarrow> v = w"
      by simp_all
    show ?thesis
    proof (cases "cached c w")
      case True
      then obtain j where j: "j < cache_count c" "slot_word (cache_slots c j) = Some w"
        by (auto simp add: cached_iff)
      from cache_put_hit_inv [OF assms(1) j w(2)] assms(3) Put w
      have o: "occupied c' = (cache_slots c j)\<lparr>slot_files := fs\<rparr> # take j (occupied c) @ drop (Suc j) (occupied c)"
        by auto
      from j(2) have a: "slot_word ((cache_slots c j)\<lparr>slot_files := fs\<rparr>) = Some w"
        by simp
      show ?thesis
        unfolding o by (rule recency_moved [OF assms(1,2) j a t])
    next
      case False
      from cache_put_miss [OF assms(1) False w(2)] assms(3) Put w
      have o: "occupied c' = \<lparr>slot_word = Some w, slot_files = fs\<rparr> # take (CACHE_CAP - 1) (occupied c)"
        by auto
      have a: "slot_word \<lparr>slot_word = Some w, slot_files = fs\<rparr> = Some w"
        by simp
      show ?thesis
        unfolding o by (rule recency_pushed [OF assms(2) False a t])
    qed
  qed
qed

lemma run_ops_recency:
  "\<exists>c. run_ops ops init_cache = Inr c \<and> cache_inv c \<and> by_recency ops (occupied c)"
proof (induction ops rule: rev_induct)
  case Nil
  show ?case
    by (simp add: init_cache_inv by_recency_def) (simp add: occupied_def init_cache_def)
next
  case (snoc x xs)
  then obtain c where c: "run_ops xs init_cache = Inr c" "cache_inv c" "by_recency xs (occupied c)"
    by blast
  from apply_op_inv [OF c(2), of x] obtain c' where c': "apply_op x c = Inr c'" "cache_inv c'"
    by blast
  from apply_op_recency [OF c(2,3) c'(1)] c c' show ?case
    by (simp add: run_ops_snoc)
qed

lemma apply_op_cached_back:
  assumes "cache_inv c" "apply_op x c = Inr c'" "cached c' w" "\<not> touches x w"
  shows "cached c w"
proof (cases x)
  case (Get v)
  show ?thesis
  proof (cases "cached c v")
    case False
    with assms(1,2) Get have "c' = c"
      by (simp add: cache_get_miss)
    with assms(3) show ?thesis by simp
  next
    case True
    then obtain j where j: "j < cache_count c" "slot_word (cache_slots c j) = Some v"
      by (auto simp add: cached_iff)
    from assms(2) Get cache_get_hit [OF assms(1) j]
    have "c' = c\<lparr>cache_slots := (shift_slots j (cache_slots c))(0 := cache_slots c j)\<rparr>"
      by simp
    with assms(3) cached_front [OF j(1), of "cache_slots c j" w] show ?thesis
      by simp
  qed
next
  case (Put wp fs)
  show ?thesis
  proof (cases "wp = None \<or> fs = []")
    case True
    with assms(2) Put have "c' = c"
      by (auto simp add: cache_put_null)
    with assms(3) show ?thesis by simp
  next
    case False
    then obtain v where v: "wp = Some v" "fs \<noteq> []" by auto
    with assms(4) Put have ne: "v \<noteq> w" by auto
    show ?thesis
    proof (cases "cached c v")
      case True
      then obtain j where j: "j < cache_count c" "slot_word (cache_slots c j) = Some v"
        by (auto simp add: cached_iff)
      from cache_put_hit_inv [OF assms(1) j v(2)] assms(2) Put v
      have o: "occupied c' = (cache_slots c j)\<lparr>slot_files := fs\<rparr> # take j (occupied c) @ drop (Suc j) (occupied c)"
        by auto
      from assms(3) ne j(2) show ?thesis
        unfolding cached_def o by (auto dest: in_set_takeD in_set_dropD)
    next
      case False
      from cache_put_miss [OF assms(1) False v(2)] assms(2) Put v
      have o: "occupied c' = \<lparr>slot_word = Some v, slot_files = fs\<rparr> # take (CACHE_CAP - 1) (occupied c)"
        by auto
      from assms(3) ne show ?thesis
        unfolding cached_def o by (auto dest: in_set_takeD)
    qed
  qed
qed

lemma run_ops_inv_state:
  "run_ops ops init_cache = Inr c \<Longrightarrow> cache_inv c"
  using run_ops_inv [OF init_cache_inv, of ops] by auto

text \<open>
  For a word that has a slot, the last operation of the run that uses it is a put that
  passes the guard or a get that finds the word in the cache.
\<close>

lemma cached_last_use_effective:
  "run_ops ops init_cache = Inr c \<Longrightarrow> cached c w \<Longrightarrow>
   \<exists>pre x post c0. ops = pre @ x # post \<and> last_use ops w = Suc (length pre)
      \<and> run_ops pre init_cache = Inr c0
      \<and> ((\<exists>fs. x = Put (Some w) fs \<and> fs \<noteq> []) \<or> (x = Get w \<and> cached c0 w))"
proof (induction ops arbitrary: c rule: rev_induct)
  case Nil
  then have "c = init_cache" by simp
  with Nil.prems(2) show ?case
    by (simp add: cached_def occupied_def init_cache_def)
next
  case (snoc x xs)
  from snoc.prems(1) obtain c1 where c1: "run_ops xs init_cache = Inr c1" "apply_op x c1 = Inr c"
    by (auto simp add: run_ops_snoc split: sum.splits)
  from c1(1) have i1: "cache_inv c1" by (rule run_ops_inv_state)
  show ?case
  proof (cases "touches x w")
    case True
    have "(\<exists>fs. x = Put (Some w) fs \<and> fs \<noteq> []) \<or> (x = Get w \<and> cached c1 w)"
    proof (cases x)
      case (Put wp fs)
      with True show ?thesis by simp
    next
      case (Get v)
      with True have v: "v = w" by simp
      have "cached c1 w"
      proof (rule ccontr)
        assume n: "\<not> cached c1 w"
        with i1 c1(2) Get v have "c = c1"
          by (simp add: cache_get_miss)
        with snoc.prems(2) n show False by simp
      qed
      with Get v show ?thesis by simp
    qed
    moreover have "xs @ [x] = xs @ x # []" by simp
    moreover from True have "last_use (xs @ [x]) w = Suc (length xs)"
      by (simp add: last_use_snoc)
    ultimately show ?thesis
      using c1(1) by blast
  next
    case False
    from apply_op_cached_back [OF i1 c1(2) snoc.prems(2) False] have "cached c1 w" .
    from snoc.IH [OF c1(1) this] obtain pre y post c0
      where p: "xs = pre @ y # post" "last_use xs w = Suc (length pre)"
        "run_ops pre init_cache = Inr c0"
        "(\<exists>fs. y = Put (Some w) fs \<and> fs \<noteq> []) \<or> (y = Get w \<and> cached c0 w)"
      by blast
    from p(1) have "xs @ [x] = pre @ y # (post @ [x])" by simp
    moreover from False p(2) have "last_use (xs @ [x]) w = Suc (length pre)"
      by (simp add: last_use_snoc)
    ultimately show ?thesis
      using p(3,4) by blast
  qed
qed

lemma last_slot_gone:
  assumes "distinct (map f xs)" "xs \<noteq> []"
  shows "f (last xs) \<notin> set (map f (butlast xs))"
proof -
  from assms(2) have "xs = butlast xs @ [last xs]" by simp
  then have "distinct (map f (butlast xs @ [last xs]))"
    using assms(1) by simp
  then show ?thesis by simp
qed

text \<open>
  C2. In every reachable cache state at most 5 slots are in use and no two of them hold
  the same word; the slots are in the order of their last use, the latest first, so the
  last slot in use holds the word used least recently, the last use of a word in a slot
  being a put that passed the guard or a get that hit. A put of a word that is not cached
  (with a document list that is not null) into a full cache drops that last slot, the
  least recently used one, whose word is then in no slot, and moves every other slot back
  by one.
\<close>

theorem cache_capacity_and_eviction:
  "\<exists>c. run_ops ops init_cache = Inr c
     \<and> cache_count c \<le> CACHE_CAP \<and> CACHE_CAP = 5
     \<and> distinct (map slot_word (occupied c))
     \<and> (\<forall>i j. i < j \<and> j < cache_count c \<longrightarrow>
           use_time ops (cache_slots c j) < use_time ops (cache_slots c i))
     \<and> (\<forall>i. i < cache_count c \<longrightarrow> 0 < use_time ops (cache_slots c i))
     \<and> (\<forall>i v. i < cache_count c \<and> slot_word (cache_slots c i) = Some v \<longrightarrow>
           (\<exists>pre x post c0. ops = pre @ x # post
              \<and> use_time ops (cache_slots c i) = Suc (length pre)
              \<and> run_ops pre init_cache = Inr c0
              \<and> ((\<exists>gs. x = Put (Some v) gs \<and> gs \<noteq> []) \<or> (x = Get v \<and> cached c0 v))))
     \<and> (cache_count c = CACHE_CAP \<and> \<not> cached c w \<and> fs \<noteq> [] \<longrightarrow>
          (\<exists>c'. cache_put (Some w) fs c = Inr c'
             \<and> cache_count c' = CACHE_CAP
             \<and> occupied c' = \<lparr>slot_word = Some w, slot_files = fs\<rparr> # butlast (occupied c)
             \<and> slot_word (cache_slots c (CACHE_CAP - 1)) \<notin> set (map slot_word (occupied c'))
             \<and> (\<forall>i. i < CACHE_CAP - 1 \<longrightarrow>
                   use_time ops (cache_slots c (CACHE_CAP - 1)) < use_time ops (cache_slots c i))
             \<and> run_ops (ops @ [Put (Some w) fs]) init_cache = Inr c'))"
proof -
  from run_ops_recency [of ops] obtain c
    where c: "run_ops ops init_cache = Inr c" "cache_inv c" "by_recency ops (occupied c)"
    by blast
  from c(3) have "sorted_wrt (\<lambda>a b. use_time ops b < use_time ops a) (occupied c)"
    by (simp add: by_recency_def)
  then have order: "use_time ops (cache_slots c j) < use_time ops (cache_slots c i)"
    if "i < j" "j < cache_count c" for i j
    using that by (auto simp add: sorted_wrt_iff_nth_less)
  have used: "0 < use_time ops (cache_slots c i)" if "i < cache_count c" for i
  proof -
    from that have "occupied c ! i \<in> set (occupied c)"
      by (simp del: nth_occupied)
    with c(3) that show ?thesis
      by (simp add: by_recency_def list_all_iff)
  qed
  from c(2) have cnt: "cache_count c \<le> CACHE_CAP" and dist: "distinct (map slot_word (occupied c))"
    by (simp_all add: cache_inv_def)
  have evict: "\<exists>c'. cache_put (Some w) fs c = Inr c'
             \<and> cache_count c' = CACHE_CAP
             \<and> occupied c' = \<lparr>slot_word = Some w, slot_files = fs\<rparr> # butlast (occupied c)
             \<and> slot_word (cache_slots c (CACHE_CAP - 1)) \<notin> set (map slot_word (occupied c'))
             \<and> (\<forall>i. i < CACHE_CAP - 1 \<longrightarrow>
                   use_time ops (cache_slots c (CACHE_CAP - 1)) < use_time ops (cache_slots c i))
             \<and> run_ops (ops @ [Put (Some w) fs]) init_cache = Inr c'"
    if full: "cache_count c = CACHE_CAP" and new: "\<not> cached c w" "fs \<noteq> []"
  proof -
    from cache_put_miss [OF c(2) new] obtain c'
      where c': "cache_put (Some w) fs c = Inr c'"
        "cache_count c' = min (Suc (cache_count c)) CACHE_CAP"
        "occupied c' = \<lparr>slot_word = Some w, slot_files = fs\<rparr> # take (CACHE_CAP - 1) (occupied c)"
      by blast
    from full have "take (CACHE_CAP - 1) (occupied c) = butlast (occupied c)"
      by (simp add: butlast_conv_take)
    with c'(3) have o: "occupied c' = \<lparr>slot_word = Some w, slot_files = fs\<rparr> # butlast (occupied c)"
      by simp
    from full have ne: "occupied c \<noteq> []"
      by (auto simp add: occupied_def CACHE_CAP_def)
    from full have "last (occupied c) = occupied c ! (CACHE_CAP - 1)"
      using ne by (simp add: last_conv_nth)
    with full have l: "last (occupied c) = cache_slots c (CACHE_CAP - 1)"
      by (simp add: CACHE_CAP_def)
    from last_slot_gone [OF dist ne] l
    have g1: "slot_word (cache_slots c (CACHE_CAP - 1)) \<notin> set (map slot_word (butlast (occupied c)))"
      by simp
    from full have "cache_slots c (CACHE_CAP - 1) \<in> set (occupied c)"
      using l ne last_in_set [of "occupied c"] by simp
    with new(1) have g2: "slot_word (cache_slots c (CACHE_CAP - 1)) \<noteq> Some w"
      by (rule uncached_slots)
    from g1 g2 o have gone: "slot_word (cache_slots c (CACHE_CAP - 1)) \<notin> set (map slot_word (occupied c'))"
      by simp
    from order [of _ "CACHE_CAP - 1"] full
    have least: "\<forall>i. i < CACHE_CAP - 1 \<longrightarrow>
        use_time ops (cache_slots c (CACHE_CAP - 1)) < use_time ops (cache_slots c i)"
      by (simp add: CACHE_CAP_def)
    from c(1) c'(1) have r: "run_ops (ops @ [Put (Some w) fs]) init_cache = Inr c'"
      by (simp add: run_ops_snoc)
    from c'(1,2) full o gone least r show ?thesis
      by simp
  qed
  have A: "\<forall>i j. i < j \<and> j < cache_count c \<longrightarrow>
           use_time ops (cache_slots c j) < use_time ops (cache_slots c i)"
    using order by blast
  have B: "\<forall>i. i < cache_count c \<longrightarrow> 0 < use_time ops (cache_slots c i)"
    using used by blast
  have U: "\<forall>i v. i < cache_count c \<and> slot_word (cache_slots c i) = Some v \<longrightarrow>
           (\<exists>pre x post c0. ops = pre @ x # post
              \<and> use_time ops (cache_slots c i) = Suc (length pre)
              \<and> run_ops pre init_cache = Inr c0
              \<and> ((\<exists>gs. x = Put (Some v) gs \<and> gs \<noteq> []) \<or> (x = Get v \<and> cached c0 v)))"
  proof (intro allI impI)
    fix i v assume a: "i < cache_count c \<and> slot_word (cache_slots c i) = Some v"
    then have "cached c v"
      by (auto simp add: cached_iff)
    from cached_last_use_effective [OF c(1) this] a
    show "\<exists>pre x post c0. ops = pre @ x # post
              \<and> use_time ops (cache_slots c i) = Suc (length pre)
              \<and> run_ops pre init_cache = Inr c0
              \<and> ((\<exists>gs. x = Put (Some v) gs \<and> gs \<noteq> []) \<or> (x = Get v \<and> cached c0 v))"
      by (simp add: use_time_def)
  qed
  have cap: "CACHE_CAP = 5"
    by (simp add: CACHE_CAP_def)
  from evict have E: "cache_count c = CACHE_CAP \<and> \<not> cached c w \<and> fs \<noteq> [] \<longrightarrow>
          (\<exists>c'. cache_put (Some w) fs c = Inr c'
             \<and> cache_count c' = CACHE_CAP
             \<and> occupied c' = \<lparr>slot_word = Some w, slot_files = fs\<rparr> # butlast (occupied c)
             \<and> slot_word (cache_slots c (CACHE_CAP - 1)) \<notin> set (map slot_word (occupied c'))
             \<and> (\<forall>i. i < CACHE_CAP - 1 \<longrightarrow>
                   use_time ops (cache_slots c (CACHE_CAP - 1)) < use_time ops (cache_slots c i))
             \<and> run_ops (ops @ [Put (Some w) fs]) init_cache = Inr c')"
    by (intro impI) (elim conjE)
  show ?thesis
    by (rule exI [of _ c]) (intro conjI c(1) cnt cap dist A B U E)
qed

lemma five_puts_get_eval:
  "(case run_ops five_puts_get init_cache of Inl x \<Rightarrow> None | Inr c \<Rightarrow> Some (cache_count c, occupied c))
    = Some (5, [\<lparr>slot_word = Some ''a'', slot_files = [''d1'']\<rparr>,
                \<lparr>slot_word = Some ''e'', slot_files = [''d1'']\<rparr>,
                \<lparr>slot_word = Some ''d'', slot_files = [''d1'']\<rparr>,
                \<lparr>slot_word = Some ''c'', slot_files = [''d1'']\<rparr>,
                \<lparr>slot_word = Some ''b'', slot_files = [''d1'']\<rparr>])"
  by code_simp

lemma five_puts_get_times:
  "map (use_time five_puts_get)
     [\<lparr>slot_word = Some ''a'', slot_files = [''d1'']\<rparr>,
      \<lparr>slot_word = Some ''e'', slot_files = [''d1'']\<rparr>,
      \<lparr>slot_word = Some ''d'', slot_files = [''d1'']\<rparr>,
      \<lparr>slot_word = Some ''c'', slot_files = [''d1'']\<rparr>,
      \<lparr>slot_word = Some ''b'', slot_files = [''d1'']\<rparr>] = [6, 5, 4, 3, 2]"
  by code_simp

theorem cache_capacity_and_eviction_witness:
  "\<exists>c c'. run_ops five_puts_get init_cache = Inr c
     \<and> cache_count c = CACHE_CAP \<and> \<not> cached c ''f'' \<and> [''d2''] \<noteq> []
     \<and> map slot_word (occupied c) = [Some ''a'', Some ''e'', Some ''d'', Some ''c'', Some ''b'']
     \<and> map (use_time five_puts_get) (occupied c) = [6, 5, 4, 3, 2]
     \<and> (0::nat) < 1 \<and> 1 < cache_count c
     \<and> use_time five_puts_get (cache_slots c 1) < use_time five_puts_get (cache_slots c 0)
     \<and> 0 < use_time five_puts_get (cache_slots c 0)
     \<and> slot_word (cache_slots c 0) = Some ''a''
     \<and> (\<exists>pre x post c0. five_puts_get = pre @ x # post
           \<and> use_time five_puts_get (cache_slots c 0) = Suc (length pre)
           \<and> run_ops pre init_cache = Inr c0
           \<and> ((\<exists>gs. x = Put (Some ''a'') gs \<and> gs \<noteq> []) \<or> (x = Get ''a'' \<and> cached c0 ''a'')))
     \<and> cache_put (Some ''f'') [''d2''] c = Inr c'
     \<and> map slot_word (occupied c') = [Some ''f'', Some ''a'', Some ''e'', Some ''d'', Some ''c'']
     \<and> slot_word (cache_slots c (CACHE_CAP - 1)) = Some ''b''
     \<and> Some ''b'' \<notin> set (map slot_word (occupied c'))
     \<and> (3::nat) < CACHE_CAP - 1
     \<and> use_time five_puts_get (cache_slots c (CACHE_CAP - 1)) < use_time five_puts_get (cache_slots c 3)"
proof -
  from cache_capacity_and_eviction [of five_puts_get "''f''" "[''d2'']"] obtain c
    where c: "run_ops five_puts_get init_cache = Inr c"
      and ord: "\<forall>i j. i < j \<and> j < cache_count c \<longrightarrow>
           use_time five_puts_get (cache_slots c j) < use_time five_puts_get (cache_slots c i)"
      and used: "\<forall>i. i < cache_count c \<longrightarrow> 0 < use_time five_puts_get (cache_slots c i)"
      and eff: "\<forall>i v. i < cache_count c \<and> slot_word (cache_slots c i) = Some v \<longrightarrow>
           (\<exists>pre x post c0. five_puts_get = pre @ x # post
              \<and> use_time five_puts_get (cache_slots c i) = Suc (length pre)
              \<and> run_ops pre init_cache = Inr c0
              \<and> ((\<exists>gs. x = Put (Some v) gs \<and> gs \<noteq> []) \<or> (x = Get v \<and> cached c0 v)))"
      and ev: "cache_count c = CACHE_CAP \<and> \<not> cached c ''f'' \<and> [''d2''] \<noteq> [] \<longrightarrow>
          (\<exists>c'. cache_put (Some ''f'') [''d2''] c = Inr c'
             \<and> cache_count c' = CACHE_CAP
             \<and> occupied c' = \<lparr>slot_word = Some ''f'', slot_files = [''d2'']\<rparr> # butlast (occupied c)
             \<and> slot_word (cache_slots c (CACHE_CAP - 1)) \<notin> set (map slot_word (occupied c'))
             \<and> (\<forall>i. i < CACHE_CAP - 1 \<longrightarrow>
                   use_time five_puts_get (cache_slots c (CACHE_CAP - 1))
                     < use_time five_puts_get (cache_slots c i))
             \<and> run_ops (five_puts_get @ [Put (Some ''f'') [''d2'']]) init_cache = Inr c')"
    by blast
  from five_puts_get_eval c
  have n: "cache_count c = 5"
    and o: "occupied c = [\<lparr>slot_word = Some ''a'', slot_files = [''d1'']\<rparr>,
                \<lparr>slot_word = Some ''e'', slot_files = [''d1'']\<rparr>,
                \<lparr>slot_word = Some ''d'', slot_files = [''d1'']\<rparr>,
                \<lparr>slot_word = Some ''c'', slot_files = [''d1'']\<rparr>,
                \<lparr>slot_word = Some ''b'', slot_files = [''d1'']\<rparr>]"
    by simp_all
  from o have h: "cache_count c = CACHE_CAP \<and> \<not> cached c ''f'' \<and> [''d2''] \<noteq> []"
    using n by (simp add: cached_def CACHE_CAP_def)
  with ev obtain c' where c': "cache_put (Some ''f'') [''d2''] c = Inr c'"
    "occupied c' = \<lparr>slot_word = Some ''f'', slot_files = [''d2'']\<rparr> # butlast (occupied c)"
    "slot_word (cache_slots c (CACHE_CAP - 1)) \<notin> set (map slot_word (occupied c'))"
    "\<forall>i. i < CACHE_CAP - 1 \<longrightarrow>
        use_time five_puts_get (cache_slots c (CACHE_CAP - 1)) < use_time five_puts_get (cache_slots c i)"
    by blast
  have t: "map (use_time five_puts_get) (occupied c) = [6, 5, 4, 3, 2]"
    unfolding o by (rule five_puts_get_times)
  from n have "cache_slots c 4 = occupied c ! 4"
    by simp
  also from o have "\<dots> = \<lparr>slot_word = Some ''b'', slot_files = [''d1'']\<rparr>"
    by simp
  finally have last: "slot_word (cache_slots c (CACHE_CAP - 1)) = Some ''b''"
    by (simp add: CACHE_CAP_def)
  from n ord have s1: "use_time five_puts_get (cache_slots c 1) < use_time five_puts_get (cache_slots c 0)"
    by simp
  from n used have s2: "0 < use_time five_puts_get (cache_slots c 0)"
    by simp
  from n have "cache_slots c 0 = occupied c ! 0"
    by simp
  also from o have "\<dots> = \<lparr>slot_word = Some ''a'', slot_files = [''d1'']\<rparr>"
    by simp
  finally have front: "slot_word (cache_slots c 0) = Some ''a''"
    by simp
  with n eff have s5: "\<exists>pre x post c0. five_puts_get = pre @ x # post
           \<and> use_time five_puts_get (cache_slots c 0) = Suc (length pre)
           \<and> run_ops pre init_cache = Inr c0
           \<and> ((\<exists>gs. x = Put (Some ''a'') gs \<and> gs \<noteq> []) \<or> (x = Get ''a'' \<and> cached c0 ''a''))"
    by simp
  have s3: "(3::nat) < CACHE_CAP - 1"
    by (simp add: CACHE_CAP_def)
  with c'(4) have s4: "use_time five_puts_get (cache_slots c (CACHE_CAP - 1))
      < use_time five_puts_get (cache_slots c 3)"
    by blast
  from c'(2) o have w': "map slot_word (occupied c') = [Some ''f'', Some ''a'', Some ''e'', Some ''d'', Some ''c'']"
    by simp
  from c'(3) last have gone: "Some ''b'' \<notin> set (map slot_word (occupied c'))"
    by simp
  from o have w: "map slot_word (occupied c) = [Some ''a'', Some ''e'', Some ''d'', Some ''c'', Some ''b'']"
    by simp
  show ?thesis
    apply (rule exI [of _ c], rule exI [of _ c'])
    using c h w t n s1 s2 front s5 c'(1) w' last gone s3 s4
    by (intro conjI) simp_all
qed

text \<open>
  C3. In every reachable cache state, two calls of \<open>cache_get\<close> in a row for the same word
  return the same list; after a hit the word is in slot 0 after each call; a miss returns
  null and leaves the cache as it was.
\<close>

theorem cache_get_twice:
  "\<exists>c r c1 c2. run_ops ops init_cache = Inr c
     \<and> cache_get w c = Inr (r, c1) \<and> cache_get w c1 = Inr (r, c2)
     \<and> (cached c w \<longrightarrow> r \<noteq> [] \<and> 0 < cache_count c1 \<and> slot_word (cache_slots c1 0) = Some w
            \<and> 0 < cache_count c2 \<and> slot_word (cache_slots c2 0) = Some w)
     \<and> (\<not> cached c w \<longrightarrow> r = [] \<and> c1 = c \<and> c2 = c)"
proof -
  from run_ops_inv [OF init_cache_inv, of ops] obtain c
    where c: "run_ops ops init_cache = Inr c" "cache_inv c"
    by blast
  show ?thesis
  proof (cases "cached c w")
    case False
    with c(2) have "cache_get w c = Inr ([], c)"
      by (rule cache_get_miss)
    with c(1) False show ?thesis by auto
  next
    case True
    then obtain j where j: "j < cache_count c" "slot_word (cache_slots c j) = Some w"
      by (auto simp add: cached_iff)
    let ?r = "slot_files (cache_slots c j)"
    let ?c1 = "c\<lparr>cache_slots := (shift_slots j (cache_slots c))(0 := cache_slots c j)\<rparr>"
    let ?c2 = "?c1\<lparr>cache_slots := (shift_slots 0 (cache_slots ?c1))(0 := cache_slots ?c1 0)\<rparr>"
    from c(2) j have g1: "cache_get w c = Inr (?r, ?c1)"
      by (rule cache_get_hit)
    from c(2) j inv_slot [of c j] have i1: "cache_inv ?c1"
      by (intro front_inv) simp_all
    from j have f1: "0 < cache_count ?c1" "slot_word (cache_slots ?c1 0) = Some w"
      by simp_all
    from cache_get_hit [OF i1 f1] have g2: "cache_get w ?c1 = Inr (?r, ?c2)"
      by simp
    from c(2) j inv_slot [of c j] have "?r \<noteq> []" by simp
    with c(1) g1 g2 f1 True show ?thesis
      by (intro exI [of _ c] exI [of _ ?r] exI [of _ ?c1] exI [of _ ?c2]) simp
  qed
qed

lemma two_puts_eval:
  "(case run_ops two_puts init_cache of Inl x \<Rightarrow> None | Inr c \<Rightarrow> Some (cache_count c, occupied c))
    = Some (2, [\<lparr>slot_word = Some ''b'', slot_files = [''d2'']\<rparr>, \<lparr>slot_word = Some ''a'', slot_files = [''d1'']\<rparr>])"
  by code_simp

theorem cache_get_twice_witness:
  "\<exists>c r c1 c2. run_ops two_puts init_cache = Inr c
     \<and> cached c ''a'' \<and> \<not> cached c ''z''
     \<and> cache_get ''a'' c = Inr (r, c1) \<and> cache_get ''a'' c1 = Inr (r, c2)
     \<and> r \<noteq> [] \<and> slot_word (cache_slots c1 0) = Some ''a'' \<and> slot_word (cache_slots c2 0) = Some ''a''
     \<and> cache_get ''z'' c = Inr ([], c)"
proof -
  from cache_get_twice [of two_puts "''a''"] obtain c r c1 c2
    where a: "run_ops two_puts init_cache = Inr c"
      "cache_get ''a'' c = Inr (r, c1)" "cache_get ''a'' c1 = Inr (r, c2)"
      "cached c ''a'' \<longrightarrow> r \<noteq> [] \<and> 0 < cache_count c1 \<and> slot_word (cache_slots c1 0) = Some ''a''
            \<and> 0 < cache_count c2 \<and> slot_word (cache_slots c2 0) = Some ''a''"
    by blast
  from cache_get_twice [of two_puts "''z''"] a(1) obtain r' c1'
    where z: "cache_get ''z'' c = Inr (r', c1')" "\<not> cached c ''z'' \<longrightarrow> r' = [] \<and> c1' = c"
    by auto
  from two_puts_eval a(1)
  have "occupied c = [\<lparr>slot_word = Some ''b'', slot_files = [''d2'']\<rparr>, \<lparr>slot_word = Some ''a'', slot_files = [''d1'']\<rparr>]"
    by simp
  then have h: "cached c ''a''" "\<not> cached c ''z''"
    by (simp_all add: cached_def)
  with a z show ?thesis by blast
qed

text \<open>
  C10. \<open>cache_put\<close> with a null word or a null document list changes nothing; so in every
  reachable cache state every slot in use has a word and a document list that are not
  null, and \<open>cache_get\<close> returns a list that is not null exactly when the word is cached.
\<close>

theorem cache_slots_never_null:
  "cache_put None fs c0 = Inr c0 \<and> cache_put wp [] c0 = Inr c0
   \<and> (\<exists>c. run_ops ops init_cache = Inr c
        \<and> (\<forall>i<cache_count c. slot_word (cache_slots c i) \<noteq> None \<and> slot_files (cache_slots c i) \<noteq> [])
        \<and> (\<exists>r c'. cache_get w c = Inr (r, c') \<and> (r \<noteq> [] \<longleftrightarrow> cached c w)))"
proof -
  from run_ops_inv [OF init_cache_inv, of ops] obtain c
    where c: "run_ops ops init_cache = Inr c" "cache_inv c"
    by blast
  have g: "\<exists>r c'. cache_get w c = Inr (r, c') \<and> (r \<noteq> [] \<longleftrightarrow> cached c w)"
  proof (cases "cached c w")
    case False
    with c(2) have "cache_get w c = Inr ([], c)"
      by (rule cache_get_miss)
    with False show ?thesis by simp
  next
    case True
    then obtain j where j: "j < cache_count c" "slot_word (cache_slots c j) = Some w"
      by (auto simp add: cached_iff)
    from c(2) j inv_slot [of c j] cache_get_hit [of c j w] True show ?thesis
      by simp
  qed
  from c(2) have "\<forall>i<cache_count c. slot_word (cache_slots c i) \<noteq> None \<and> slot_files (cache_slots c i) \<noteq> []"
    using inv_slot by blast
  with c(1) g show ?thesis
    by (auto simp add: cache_put_null)
qed

theorem cache_slots_never_null_witness:
  "\<exists>c. run_ops two_puts init_cache = Inr c \<and> cache_count c = 2
     \<and> (0::nat) < cache_count c
     \<and> slot_word (cache_slots c 0) \<noteq> None \<and> slot_files (cache_slots c 0) \<noteq> []
     \<and> slot_word (cache_slots c 1) \<noteq> None \<and> slot_files (cache_slots c 1) \<noteq> []
     \<and> cached c ''b''
     \<and> (\<exists>r c'. cache_get ''b'' c = Inr (r, c') \<and> r \<noteq> [])"
proof -
  from cache_slots_never_null [of "[]" init_cache None two_puts "''b''"] obtain c
    where a: "run_ops two_puts init_cache = Inr c"
      "\<forall>i<cache_count c. slot_word (cache_slots c i) \<noteq> None \<and> slot_files (cache_slots c i) \<noteq> []"
      "\<exists>r c'. cache_get ''b'' c = Inr (r, c') \<and> (r \<noteq> [] \<longleftrightarrow> cached c ''b'')"
    by blast
  from two_puts_eval a(1)
  have e: "cache_count c = 2"
    "occupied c = [\<lparr>slot_word = Some ''b'', slot_files = [''d2'']\<rparr>, \<lparr>slot_word = Some ''a'', slot_files = [''d1'']\<rparr>]"
    by simp_all
  then have h: "cached c ''b''"
    by (simp add: cached_def)
  from e a(2) have "slot_word (cache_slots c 0) \<noteq> None \<and> slot_files (cache_slots c 0) \<noteq> []"
    "slot_word (cache_slots c 1) \<noteq> None \<and> slot_files (cache_slots c 1) \<noteq> []"
    by simp_all
  with a e h show ?thesis by auto
qed

subsection \<open>Lookup: what is printed\<close>

lemma slot_eta: "slot_word s = a \<Longrightarrow> \<lparr>slot_word = a, slot_files = slot_files s\<rparr> = s"
  by (cases s) simp

lemma lookup_hit:
  assumes "cache_inv c" "j < cache_count c" "slot_word (cache_slots c j) = Some w"
  shows "lookup_with_cache tbl w c =
     Inr (slot_files (cache_slots c j), ''from cache\<newline>'',
          c\<lparr>cache_slots := (shift_slots j (cache_slots c))(0 := cache_slots c j)\<rparr>)"
  using assms inv_slot [of c j] cache_get_hit [of c j w]
  by (simp add: lookup_with_cache_def)

lemma lookup_absent:
  assumes "cache_inv c" "\<not> cached c w" "\<not> indexed tbl w"
  shows "lookup_with_cache tbl w c = Inr ([], [], c)"
  using assms cache_get_miss [of c w]
  by (simp add: lookup_with_cache_def indexed_def split: option.splits)

lemma lookup_fill:
  assumes "cache_inv c" "\<not> cached c w" "indexed tbl w"
  shows "\<exists>e c'. find_word_entry tbl w = Some e \<and> entry_files e \<noteq> []
     \<and> cache_put (Some w) (entry_files e) c = Inr c' \<and> cache_inv c'
     \<and> occupied c' = \<lparr>slot_word = Some w, slot_files = entry_files e\<rparr> # take (CACHE_CAP - 1) (occupied c)
     \<and> lookup_with_cache tbl w c = Inr (entry_files e, ''from hash table\<newline>'', c')"
proof -
  from assms(3) obtain e where e: "find_word_entry tbl w = Some e" "entry_files e \<noteq> []"
    by (auto simp add: indexed_def split: option.splits)
  then have w: "entry_word e = w"
    by (auto simp add: find_word_entry_def dest: find_chain_word)
  from cache_put_miss [OF assms(1,2) e(2)] obtain c'
    where c': "cache_put (Some w) (entry_files e) c = Inr c'" "cache_inv c'"
      "occupied c' = \<lparr>slot_word = Some w, slot_files = entry_files e\<rparr> # take (CACHE_CAP - 1) (occupied c)"
    by blast
  from assms e w c' cache_get_miss [of c w]
  have "lookup_with_cache tbl w c = Inr (entry_files e, ''from hash table\<newline>'', c')"
    by (simp add: lookup_with_cache_def)
  with e c' show ?thesis by blast
qed

lemma print_files_found:
  "fs \<noteq> [] \<Longrightarrow> \<exists>names. print_files fs = ''found in: '' @ names"
  by (cases fs) (simp_all add: print_files_def)

text \<open>
  C5 (amended). In every reachable cache state, a lookup that returns a list prints
  exactly the line "from cache" when the word was cached and exactly "from hash table"
  when the list came from the index, and the loop prints the "found in: ..." result after
  that line; a lookup that returns null prints nothing.
\<close>

theorem provenance_line_printed:
  "\<exists>c. run_ops ops init_cache = Inr c \<and>
     (\<exists>fs out c'. lookup_with_cache tbl w c = Inr (fs, out, c')
        \<and> (cached c w \<longrightarrow> fs \<noteq> [] \<and> out = ''from cache\<newline>''
              \<and> \<lparr>slot_word = Some w, slot_files = fs\<rparr> \<in> set (occupied c))
        \<and> (\<not> cached c w \<and> fs \<noteq> [] \<longrightarrow> out = ''from hash table\<newline>''
              \<and> (\<exists>e. find_word_entry tbl w = Some e \<and> entry_files e = fs))
        \<and> (fs = [] \<longrightarrow> out = [])
        \<and> (fs \<noteq> [] \<and> w \<noteq> [] \<and> normalize_word_inplace (strip_newline line) = w \<longrightarrow>
             serve_line tbl line c = Inr (Some (out @ print_files fs, c'))
             \<and> (\<exists>names. print_files fs = ''found in: '' @ names)))"
proof -
  from run_ops_inv [OF init_cache_inv, of ops] obtain c
    where c: "run_ops ops init_cache = Inr c" "cache_inv c"
    by blast
  have serve: "serve_line tbl line c = Inr (Some (out @ print_files fs, c'))
             \<and> (\<exists>names. print_files fs = ''found in: '' @ names)"
    if "lookup_with_cache tbl w c = Inr (fs, out, c')" "fs \<noteq> []" "w \<noteq> []"
      "normalize_word_inplace (strip_newline line) = w" for fs out c'
  proof -
    from that(3,4) have "strip_newline line \<noteq> []" by auto
    with that have "serve_line tbl line c = Inr (Some (out @ print_files fs, c'))"
      by (simp add: serve_line_def Let_def)
    with print_files_found [OF that(2)] show ?thesis
      by (rule conjI [rotated])
  qed
  have "\<exists>fs out c'. lookup_with_cache tbl w c = Inr (fs, out, c')
        \<and> (cached c w \<longrightarrow> fs \<noteq> [] \<and> out = ''from cache\<newline>''
              \<and> \<lparr>slot_word = Some w, slot_files = fs\<rparr> \<in> set (occupied c))
        \<and> (\<not> cached c w \<and> fs \<noteq> [] \<longrightarrow> out = ''from hash table\<newline>''
              \<and> (\<exists>e. find_word_entry tbl w = Some e \<and> entry_files e = fs))
        \<and> (fs = [] \<longrightarrow> out = [])"
  proof (cases "cached c w")
    case True
    then obtain j where j: "j < cache_count c" "slot_word (cache_slots c j) = Some w"
      by (auto simp add: cached_iff)
    from j have "occupied c ! j \<in> set (occupied c)"
      by (simp del: nth_occupied)
    with j have mem: "cache_slots c j \<in> set (occupied c)"
      by simp
    have "\<lparr>slot_word = Some w, slot_files = slot_files (cache_slots c j)\<rparr> = cache_slots c j"
      by (rule slot_eta) (rule j(2))
    with mem have "\<lparr>slot_word = Some w, slot_files = slot_files (cache_slots c j)\<rparr> \<in> set (occupied c)"
      by (simp only:)
    with lookup_hit [OF c(2) j, of tbl] inv_slot [OF c(2) j(1)] True show ?thesis
      by simp
  next
    case False
    show ?thesis
    proof (cases "indexed tbl w")
      case True
      with lookup_fill [OF c(2) False, of tbl] False show ?thesis
        by auto
    next
      case False
      with lookup_absent [OF c(2) \<open>\<not> cached c w\<close>, of tbl] \<open>\<not> cached c w\<close> show ?thesis
        by simp
    qed
  qed
  with serve c(1) show ?thesis
    by blast
qed

lemma scenario_first_lookup:
  "report_after scenario_table [] ''banana''
     = Some ([''doc2.txt'', ''doc1.txt''], ''from hash table\<newline>'')"
  by code_simp

lemma scenario_second_lookup:
  "report_after scenario_table [''banana''] ''banana''
     = Some ([''doc2.txt'', ''doc1.txt''], ''from cache\<newline>'')"
  by code_simp

theorem provenance_line_printed_witness:
  "(\<exists>fs out c'. lookup_with_cache scenario_table ''banana'' init_cache = Inr (fs, out, c')
      \<and> \<not> cached init_cache ''banana'' \<and> fs \<noteq> [] \<and> out = ''from hash table\<newline>''
      \<and> ''banana'' \<noteq> [] \<and> normalize_word_inplace (strip_newline ''Banana!\<newline>'') = ''banana''
      \<and> serve_line scenario_table ''Banana!\<newline>'' init_cache = Inr (Some (out @ print_files fs, c')))
   \<and> (\<exists>c fs out c'. run_ops two_puts init_cache = Inr c
      \<and> lookup_with_cache scenario_table ''a'' c = Inr (fs, out, c')
      \<and> cached c ''a'' \<and> fs \<noteq> [] \<and> out = ''from cache\<newline>'')"
proof -
  from provenance_line_printed [of "[]" scenario_table "''banana''" "''Banana!\<newline>''"]
  obtain fs out c'
    where a: "lookup_with_cache scenario_table ''banana'' init_cache = Inr (fs, out, c')"
      "\<not> cached init_cache ''banana'' \<and> fs \<noteq> [] \<longrightarrow> out = ''from hash table\<newline>''"
      "fs \<noteq> [] \<and> ''banana'' \<noteq> [] \<and> normalize_word_inplace (strip_newline ''Banana!\<newline>'') = ''banana'' \<longrightarrow>
         serve_line scenario_table ''Banana!\<newline>'' init_cache = Inr (Some (out @ print_files fs, c'))"
    by auto
  have n: "normalize_word_inplace (strip_newline ''Banana!\<newline>'') = ''banana''"
    by code_simp
  have m: "\<not> cached init_cache ''banana''"
    by (simp add: cached_def occupied_def init_cache_def)
  from scenario_first_lookup a(1) have f: "fs \<noteq> []"
    by (simp add: report_after_def lookup_report_def)
  from a n m f have first: "\<exists>fs out c'. lookup_with_cache scenario_table ''banana'' init_cache = Inr (fs, out, c')
      \<and> \<not> cached init_cache ''banana'' \<and> fs \<noteq> [] \<and> out = ''from hash table\<newline>''
      \<and> ''banana'' \<noteq> [] \<and> normalize_word_inplace (strip_newline ''Banana!\<newline>'') = ''banana''
      \<and> serve_line scenario_table ''Banana!\<newline>'' init_cache = Inr (Some (out @ print_files fs, c'))"
    by (intro exI [of _ fs] exI [of _ out] exI [of _ c']) simp
  from provenance_line_printed [of two_puts scenario_table "''a''" "[]"]
  obtain c gs out2 c2
    where b: "run_ops two_puts init_cache = Inr c"
      "lookup_with_cache scenario_table ''a'' c = Inr (gs, out2, c2)"
      "cached c ''a'' \<longrightarrow> gs \<noteq> [] \<and> out2 = ''from cache\<newline>''"
    by auto
  from two_puts_eval b(1)
  have "occupied c = [\<lparr>slot_word = Some ''b'', slot_files = [''d2'']\<rparr>, \<lparr>slot_word = Some ''a'', slot_files = [''d1'']\<rparr>]"
    by simp
  then have "cached c ''a''"
    by (simp add: cached_def)
  with b have second: "\<exists>c fs out c'. run_ops two_puts init_cache = Inr c
      \<and> lookup_with_cache scenario_table ''a'' c = Inr (fs, out, c')
      \<and> cached c ''a'' \<and> fs \<noteq> [] \<and> out = ''from cache\<newline>''"
    by (intro exI [of _ c] exI [of _ gs] exI [of _ out2] exI [of _ c2]) simp
  from first second show ?thesis
    by (rule conjI)
qed

text \<open>
  The lines are not "served from index" and "served from cache": in the scenario the
  first lookup prints "from hash table" and the second "from cache".
\<close>

theorem provenance_line_text_counterexample:
  "map_option snd (report_after scenario_table [] ''banana'') = Some ''from hash table\<newline>''
   \<and> map_option snd (report_after scenario_table [] ''banana'') \<noteq> Some ''served from index\<newline>''
   \<and> map_option snd (report_after scenario_table [''banana''] ''banana'') = Some ''from cache\<newline>''
   \<and> map_option snd (report_after scenario_table [''banana''] ''banana'') \<noteq> Some ''served from cache\<newline>''"
  unfolding scenario_first_lookup scenario_second_lookup by simp

subsection \<open>The scenario\<close>

lemma index_static_files_unfold:
  "index_static_files fs st =
     index_file fs ''texts/doc3.txt'' ''doc3.txt''
       (index_file fs ''texts/doc2.txt'' ''doc2.txt''
          (index_file fs ''texts/doc1.txt'' ''doc1.txt'' st))"
proof -
  have "[0..<3] = [0, 1, 2]"
    by (simp add: upt_rec)
  then show ?thesis
    by (simp add: index_static_files_def sample_full_paths_def sample_basenames_def)
qed

lemma scenario_static:
  "fst (index_static_files scenario_files (empty_table, [])) = scenario_table"
proof -
  have "scenario_files ''texts/doc3.txt'' = None"
    by (simp add: scenario_files_def)
  then show ?thesis
    by (simp add: index_static_files_unfold scenario_table_def index_file_def)
qed

text \<open>
  C6. With doc1.txt ("apple banana") indexed and then doc2.txt ("banana cherry"), as the
  start of the program does when doc3.txt cannot be opened, the first lookup of "banana"
  is served from the index and returns doc2.txt, doc1.txt in this order; the second is
  served from the cache and returns the same list.
\<close>

theorem scenario_banana:
  "fst (index_static_files scenario_files (empty_table, [])) = scenario_table
   \<and> report_after scenario_table [] ''banana''
     = Some ([''doc2.txt'', ''doc1.txt''], ''from hash table\<newline>'')
   \<and> served_from scenario_table [] ''banana'' = Some FromIndex
   \<and> report_after scenario_table [''banana''] ''banana''
     = Some ([''doc2.txt'', ''doc1.txt''], ''from cache\<newline>'')
   \<and> served_from scenario_table [''banana''] ''banana'' = Some FromCache"
  unfolding served_from_def scenario_first_lookup scenario_second_lookup scenario_static
  by (simp add: provenance_of_def)

text \<open>The whole program on the scenario: what it prints for five lines of input.\<close>

lemma main_scenario_output:
  "main scenario_files [] [''banana\<newline>'', ''Banana!\<newline>'', ''durian\<newline>'', ''!!!\<newline>'', ''\<newline>'']
     = Inr (''indexed files from ./texts (doc1.txt, doc2.txt, doc3.txt)\<newline>''
          @ ''type a word to search (empty line to quit)\<newline>''
          @ ''> from hash table\<newline>found in: doc2.txt doc1.txt\<newline>''
          @ ''> from cache\<newline>found in: doc2.txt doc1.txt\<newline>''
          @ ''> not found\<newline>''
          @ ''> pls type letters/numbers\<newline>''
          @ ''> '')"
  by code_simp

subsection \<open>Lookup: provenance along a query trace\<close>

lemma lookup_step:
  assumes "cache_inv c"
  shows "\<exists>fs out c'. lookup_with_cache tbl q c = Inr (fs, out, c') \<and> cache_inv c'
     \<and> (\<forall>v. v \<noteq> q \<longrightarrow> cached c' v \<longrightarrow> cached c v)
     \<and> (cached c' q \<longleftrightarrow> cached c q \<or> indexed tbl q)
     \<and> provenance_of out = (if cached c q then Some FromCache
                             else if indexed tbl q then Some FromIndex else None)"
proof (cases "cached c q")
  case True
  then obtain j where j: "j < cache_count c" "slot_word (cache_slots c j) = Some q"
    by (auto simp add: cached_iff)
  let ?c' = "c\<lparr>cache_slots := (shift_slots j (cache_slots c))(0 := cache_slots c j)\<rparr>"
  from assms j inv_slot [of c j] have "cache_inv ?c'"
    by (intro front_inv) simp_all
  moreover from j have "\<And>v. cached ?c' v = cached c v"
    by (intro cached_front) simp_all
  ultimately show ?thesis
    using lookup_hit [OF assms j, of tbl] True
    by (simp add: provenance_of_def)
next
  case False
  show ?thesis
  proof (cases "indexed tbl q")
    case True
    from lookup_fill [OF assms False True] obtain e :: WordEntry and c'
      where f: "cache_inv c'"
        "occupied c' = \<lparr>slot_word = Some q, slot_files = entry_files e\<rparr> # take (CACHE_CAP - 1) (occupied c)"
        "lookup_with_cache tbl q c = Inr (entry_files e, ''from hash table\<newline>'', c')"
      by blast
    from f(2) have "cached c' q"
      by (simp add: cached_def)
    moreover from f(2) have "\<forall>v. v \<noteq> q \<longrightarrow> cached c' v \<longrightarrow> cached c v"
      by (auto simp add: cached_def dest: in_set_takeD)
    ultimately show ?thesis
      using f(1,3) False True by (simp add: provenance_of_def)
  next
    case no: False
    from lookup_absent [OF assms False no] assms False no show ?thesis
      by (simp add: provenance_of_def)
  qed
qed

lemma run_lookups_inv:
  "cache_inv c \<Longrightarrow> \<exists>c'. run_lookups tbl qs c = Inr c' \<and> cache_inv c'"
proof (induction qs arbitrary: c)
  case Nil
  then show ?case by simp
next
  case (Cons q qs)
  from lookup_step [OF Cons.prems, of tbl q] obtain fs out c1
    where s: "lookup_with_cache tbl q c = Inr (fs, out, c1)" "cache_inv c1"
    by blast
  from Cons.IH [OF s(2)] s(1) show ?case by simp
qed

lemma cached_after_trace:
  "cache_inv c \<Longrightarrow> indexed tbl w \<Longrightarrow> run_lookups tbl qs c = Inr c' \<Longrightarrow>
   cached c' w \<longleftrightarrow> (cached c w \<and> kept tbl c qs w) \<or> queried_unevicted tbl c qs w"
proof (induction qs arbitrary: c)
  case Nil
  then show ?case by simp
next
  case (Cons q qs)
  from lookup_step [OF Cons.prems(1), of tbl q] obtain fs out c1
    where s: "lookup_with_cache tbl q c = Inr (fs, out, c1)" "cache_inv c1"
      "\<forall>v. v \<noteq> q \<longrightarrow> cached c1 v \<longrightarrow> cached c v"
      "cached c1 q \<longleftrightarrow> cached c q \<or> indexed tbl q"
    by blast
  from Cons.prems(3) s(1) have r: "run_lookups tbl qs c1 = Inr c'"
    by simp
  from Cons.IH [OF s(2) Cons.prems(2) r]
  have ih: "cached c' w \<longleftrightarrow> (cached c1 w \<and> kept tbl c1 qs w) \<or> queried_unevicted tbl c1 qs w" .
  have step: "cached c1 w \<longleftrightarrow> (cached c w \<and> cached c1 w) \<or> q = w"
  proof (cases "q = w")
    case True
    with s(4) Cons.prems(2) show ?thesis by simp
  next
    case False
    with s(3) show ?thesis by auto
  qed
  have k: "kept tbl c (q # qs) w \<longleftrightarrow> \<not> (cached c w \<and> \<not> cached c1 w) \<and> kept tbl c1 qs w"
    using s(1) by simp
  have u: "queried_unevicted tbl c (q # qs) w \<longleftrightarrow>
      (q = w \<and> kept tbl c1 qs w) \<or> queried_unevicted tbl c1 qs w"
    using s(1) by simp
  show ?case
    unfolding ih k u using step by blast
qed

lemma uncached_after_trace:
  "cache_inv c \<Longrightarrow> \<not> indexed tbl w \<Longrightarrow> \<not> cached c w \<Longrightarrow> run_lookups tbl qs c = Inr c' \<Longrightarrow>
   \<not> cached c' w"
proof (induction qs arbitrary: c)
  case Nil
  then show ?case by simp
next
  case (Cons q qs)
  from lookup_step [OF Cons.prems(1), of tbl q] obtain fs out c1
    where s: "lookup_with_cache tbl q c = Inr (fs, out, c1)" "cache_inv c1"
      "\<forall>v. v \<noteq> q \<longrightarrow> cached c1 v \<longrightarrow> cached c v"
      "cached c1 q \<longleftrightarrow> cached c q \<or> indexed tbl q"
    by blast
  from Cons.prems(4) s(1) have r: "run_lookups tbl qs c1 = Inr c'"
    by simp
  have "\<not> cached c1 w"
  proof (cases "q = w")
    case True
    with s(4) Cons.prems(2,3) show ?thesis by simp
  next
    case False
    with s(3) Cons.prems(3) show ?thesis by auto
  qed
  from Cons.IH [OF s(2) Cons.prems(2) this r] show ?case .
qed

lemma queried_unevicted_in_trace:
  "queried_unevicted tbl c qs w \<Longrightarrow> w \<in> set qs"
  by (induction qs arbitrary: c) (auto split: sum.splits)

lemma served_from_cases:
  "\<exists>c. run_lookups tbl qs init_cache = Inr c \<and> cache_inv c
     \<and> served_from tbl qs w = (if cached c w then Some FromCache
                                else if indexed tbl w then Some FromIndex else None)"
proof -
  from run_lookups_inv [OF init_cache_inv, of tbl qs] obtain c
    where c: "run_lookups tbl qs init_cache = Inr c" "cache_inv c"
    by blast
  from lookup_step [OF c(2), of tbl w] obtain fs out c'
    where "lookup_with_cache tbl w c = Inr (fs, out, c')"
      "provenance_of out = (if cached c w then Some FromCache
                             else if indexed tbl w then Some FromIndex else None)"
    by blast
  with c show ?thesis
    by (simp add: served_from_def report_after_def lookup_report_def)
qed

lemma report_after_cases:
  "\<exists>c. run_lookups tbl qs init_cache = Inr c \<and> cache_inv c
     \<and> (\<exists>fs out. report_after tbl qs w = Some (fs, out)
           \<and> (fs \<noteq> [] \<longleftrightarrow> cached c w \<or> indexed tbl w)
           \<and> (fs = [] \<longrightarrow> out = []))"
proof -
  from run_lookups_inv [OF init_cache_inv, of tbl qs] obtain c
    where c: "run_lookups tbl qs init_cache = Inr c" "cache_inv c"
    by blast
  have "\<exists>fs out c'. lookup_with_cache tbl w c = Inr (fs, out, c')
      \<and> (fs \<noteq> [] \<longleftrightarrow> cached c w \<or> indexed tbl w) \<and> (fs = [] \<longrightarrow> out = [])"
  proof (cases "cached c w")
    case True
    then obtain j where j: "j < cache_count c" "slot_word (cache_slots c j) = Some w"
      by (auto simp add: cached_iff)
    from lookup_hit [OF c(2) j, of tbl] inv_slot [OF c(2) j(1)] True show ?thesis
      by simp
  next
    case False
    show ?thesis
    proof (cases "indexed tbl w")
      case True
      from lookup_fill [OF c(2) False True] obtain e :: WordEntry and c'
        where "entry_files e \<noteq> []"
          "lookup_with_cache tbl w c = Inr (entry_files e, ''from hash table\<newline>'', c')"
        by blast
      with True show ?thesis
        by simp
    next
      case no: False
      from lookup_absent [OF c(2) False no] False no show ?thesis
        by simp
    qed
  qed
  then obtain fs out c' where l: "lookup_with_cache tbl w c = Inr (fs, out, c')"
    "fs \<noteq> [] \<longleftrightarrow> cached c w \<or> indexed tbl w" "fs = [] \<longrightarrow> out = []"
    by blast
  from c(1) l(1) have "report_after tbl qs w = Some (fs, out)"
    by (simp add: report_after_def lookup_report_def)
  with c l(2,3) show ?thesis
    by blast
qed

text \<open>
  C4 (amended). Along every query trace after index build, for a word that the index
  holds with a document list: the lookup returns a list, and it is served from the cache
  exactly when the trace has a lookup of the word after which no lookup evicted it, and
  served from the index otherwise, and so on the first lookup of the word. For a word
  that the index does not hold a lookup reports no provenance at all: it returns null
  (not found) and prints nothing.
\<close>

theorem lookup_provenance:
  "(indexed tbl w \<longrightarrow>
      (served_from tbl qs w = Some FromCache \<longleftrightarrow> queried_unevicted tbl init_cache qs w)
      \<and> (served_from tbl qs w = Some FromIndex \<longleftrightarrow> \<not> queried_unevicted tbl init_cache qs w)
      \<and> (w \<notin> set qs \<longrightarrow> served_from tbl qs w = Some FromIndex)
      \<and> (\<exists>fs out. report_after tbl qs w = Some (fs, out) \<and> fs \<noteq> []))
   \<and> (\<not> indexed tbl w \<longrightarrow>
        served_from tbl qs w = None \<and> report_after tbl qs w = Some ([], []))"
proof -
  from served_from_cases [of tbl qs w] obtain c
    where c: "run_lookups tbl qs init_cache = Inr c" "cache_inv c"
      "served_from tbl qs w = (if cached c w then Some FromCache
                                else if indexed tbl w then Some FromIndex else None)"
    by blast
  from report_after_cases [of tbl qs w] c(1) obtain fs out
    where r: "report_after tbl qs w = Some (fs, out)"
      "fs \<noteq> [] \<longleftrightarrow> cached c w \<or> indexed tbl w" "fs = [] \<longrightarrow> out = []"
    by auto
  have empty: "\<not> cached init_cache w"
    by (simp add: cached_def occupied_def init_cache_def)
  have yes: "cached c w \<longleftrightarrow> queried_unevicted tbl init_cache qs w" if "indexed tbl w"
    using cached_after_trace [OF init_cache_inv that c(1)] empty by simp
  have no: "\<not> cached c w" if "\<not> indexed tbl w"
    using uncached_after_trace [OF init_cache_inv that empty c(1)] .
  have first: "\<not> queried_unevicted tbl init_cache qs w" if "w \<notin> set qs"
    using that queried_unevicted_in_trace [of tbl init_cache qs w] by blast
  have found: "\<exists>fs out. report_after tbl qs w = Some (fs, out) \<and> fs \<noteq> []" if "indexed tbl w"
    using that r(1,2) by blast
  have absent: "report_after tbl qs w = Some ([], [])" if "\<not> indexed tbl w"
    using that no r by simp
  have prov: "(served_from tbl qs w = Some FromCache \<longleftrightarrow> queried_unevicted tbl init_cache qs w)
      \<and> (served_from tbl qs w = Some FromIndex \<longleftrightarrow> \<not> queried_unevicted tbl init_cache qs w)
      \<and> (w \<notin> set qs \<longrightarrow> served_from tbl qs w = Some FromIndex)" if "indexed tbl w"
    using that c(3) yes first by auto
  have none: "served_from tbl qs w = None" if "\<not> indexed tbl w"
    using that c(3) no by simp
  from prov found none absent show ?thesis
    by blast
qed

lemma scenario_indexed:
  "indexed scenario_table ''banana''" "indexed scenario_table ''cherry''"
  "\<not> indexed scenario_table ''durian''"
  by code_simp+

theorem lookup_provenance_witness:
  "indexed scenario_table ''banana''
   \<and> queried_unevicted scenario_table init_cache [''banana''] ''banana''
   \<and> served_from scenario_table [''banana''] ''banana'' = Some FromCache
   \<and> indexed scenario_table ''cherry'' \<and> ''cherry'' \<notin> set [''banana'']
   \<and> \<not> queried_unevicted scenario_table init_cache [''banana''] ''cherry''
   \<and> served_from scenario_table [''banana''] ''cherry'' = Some FromIndex
   \<and> \<not> indexed scenario_table ''durian''
   \<and> served_from scenario_table [''banana''] ''durian'' = None
   \<and> report_after scenario_table [''banana''] ''durian'' = Some ([], [])
   \<and> (\<exists>fs out. report_after scenario_table [''banana''] ''banana'' = Some (fs, out) \<and> fs \<noteq> [])"
proof -
  have q: "queried_unevicted scenario_table init_cache [''banana''] ''banana''"
    by code_simp
  have n: "''cherry'' \<notin> set [''banana'']"
    by simp
  from scenario_indexed q n
    lookup_provenance [of scenario_table "''banana''" "[''banana'']"]
    lookup_provenance [of scenario_table "''cherry''" "[''banana'']"]
    lookup_provenance [of scenario_table "''durian''" "[''banana'']"]
  show ?thesis
    by blast
qed

text \<open>
  "durian" is not in the index: after one lookup of it, which nothing evicted, the next
  lookup is not served from the cache, and its first lookup is not served from the index.
\<close>

theorem lookup_provenance_counterexample:
  "queried_unevicted scenario_table init_cache [''durian''] ''durian''
   \<and> served_from scenario_table [''durian''] ''durian'' \<noteq> Some FromCache
   \<and> ''durian'' \<notin> set []
   \<and> served_from scenario_table [] ''durian'' \<noteq> Some FromIndex"
proof -
  have a: "queried_unevicted scenario_table init_cache [''durian''] ''durian''"
    by code_simp
  have b: "served_from scenario_table [''durian''] ''durian'' = None"
    by code_simp
  have c: "served_from scenario_table [] ''durian'' = None"
    by code_simp
  from a show ?thesis
    unfolding b c by simp
qed

end
